theory Spec2Isabelle
  imports Complex_Main
begin

section \<open>The WebSocket handler of the agent container\<close>

text \<open>
  The development embeds \<^verbatim>\<open>websocketHandler\<close> of the server (its \<^verbatim>\<open>onOpen\<close>,
  \<^verbatim>\<open>onMessage\<close> and \<^verbatim>\<open>onClose\<close> callbacks) together with the two module-level
  Maps \<^verbatim>\<open>sessionIds\<close> and \<^verbatim>\<open>tokenVerified\<close> they share.

  \<^verbatim>\<open>onMessage\<close> is an \<^verbatim>\<open>async\<close> function. It runs synchronously up to its first
  \<^verbatim>\<open>await\<close>, and the event loop is then free to deliver the next message or to resume
  another suspended invocation. The model therefore cuts the handler at its three
  suspension points (\<^verbatim>\<open>await verifyToken\<close>, the \<^verbatim>\<open>for await\<close> over the agent's
  response, the \<^verbatim>\<open>await\<close> on the 5 ms timer) and lets a schedule decide which suspended
  invocation runs next.
\<close>

subsection \<open>Values produced by \<^verbatim>\<open>JSON.parse\<close>\<close>

text \<open>
  A number is held by its numeric value: only whether it is zero is ever inspected, and
  a literal too large for a double, which parses to \<^verbatim>\<open>Infinity\<close>, stands for itself as
  a value other than zero. A string is the list of its UTF-16 code units, which is what
  \<^verbatim>\<open>.length\<close> counts; an object is the list of its properties, looked up by name.
\<close>

datatype json =
    JNull
  | JBool bool
  | JNum rat
  | JStr string
  | JArr "json list"
  | JObj "(string \<times> json) list"

text \<open>What \<^verbatim>\<open>JSON.parse(String(event.data))\<close> does: it throws, or it returns a value.\<close>

datatype payload = Malformed | Parsed json

text \<open>
  Property access \<^verbatim>\<open>data.token\<close>, \<^verbatim>\<open>data.prompt\<close> on a value other than
  \<^verbatim>\<open>null\<close>; \<open>None\<close> is \<^verbatim>\<open>undefined\<close>. Only these two names are ever read, and no
  boolean, number, string or array has a property of either name.
\<close>

fun get_prop :: "json \<Rightarrow> string \<Rightarrow> json option" where
  "get_prop (JObj ps) k = map_of ps k"
| "get_prop _ k = None"

text \<open>JavaScript truthiness, as used by \<^verbatim>\<open>!!x\<close>, \<^verbatim>\<open>!x\<close> and \<^verbatim>\<open>if (x)\<close>.\<close>

fun truthy :: "json option \<Rightarrow> bool" where
  "truthy None = False"
| "truthy (Some JNull) = False"
| "truthy (Some (JBool b)) = b"
| "truthy (Some (JNum n)) = (n \<noteq> 0)"
| "truthy (Some (JStr s)) = (s \<noteq> [])"
| "truthy (Some (JArr _)) = True"
| "truthy (Some (JObj _)) = True"

subsection \<open>Messages of the agent SDK\<close>

text \<open>
  The handler looks at \<^verbatim>\<open>message.type\<close>, \<^verbatim>\<open>message.subtype\<close>,
  \<^verbatim>\<open>message.session_id\<close>, \<^verbatim>\<open>message.message?.content\<close> and, for each block of the
  content, \<^verbatim>\<open>block.type\<close> and \<^verbatim>\<open>block.text\<close>. The text of a block is held as the
  list of the code points that \<^verbatim>\<open>for (const char of block.text)\<close> yields, one per
  element.
\<close>

datatype block = TextBlock string | OtherBlock

datatype sdk_message =
    SystemMessage string "string option"
  | AssistantMessage "block list option"
  | OtherMessage

text \<open>How the asynchronous iterator returned by \<^verbatim>\<open>query\<close> ends.\<close>

datatype ending = Completes | Raises

text \<open>
  What the two external services answer to one inbound message: \<^verbatim>\<open>verifyToken\<close>
  resolves with a payload (\<open>Some\<close>) or rejects (\<open>None\<close>); \<^verbatim>\<open>query\<close> returns an
  iterator that yields the listed messages and then ends.
\<close>

record upstream =
  verifyToken :: "json option"
  query :: "sdk_message list \<times> ending"

text \<open>The two variables of \<^verbatim>\<open>process.env\<close> that the handler tests.\<close>

record environment =
  ANTHROPIC_API_KEY :: "string option"
  CLAUDE_CODE_OAUTH_TOKEN :: "string option"

definition env_set :: "string option \<Rightarrow> bool" where
  "env_set v = (case v of None \<Rightarrow> False | Some x \<Rightarrow> x \<noteq> [])"

subsection \<open>Server state\<close>

type_synonym conn = nat

text \<open>
  Messages written to a socket with \<^verbatim>\<open>ws.send(JSON.stringify(...))\<close>, by their
  \<^verbatim>\<open>type\<close>: \<open>TokenVerified\<close> carries \<^verbatim>\<open>success\<close> and \<^verbatim>\<open>result\<close>, \<open>Text\<close> the
  \<^verbatim>\<open>chunk\<close>, \<open>Error\<close> the \<^verbatim>\<open>message\<close>.
\<close>

datatype wire =
    Ready
  | TokenVerified bool json
  | Text char
  | Done
  | Error string

text \<open>What a handler does that the outside can see, in the order it does it.\<close>

datatype action =
    Send wire
  | VerifyCall json
  | QueryCall string "string option"

text \<open>
  A suspended invocation of \<^verbatim>\<open>onMessage\<close>:
  \<^item> \<open>AwaitVerify r\<close> waits at \<^verbatim>\<open>await verifyToken(...)\<close>, which will answer \<open>r\<close>;
  \<^item> \<open>AwaitNext ms e\<close> waits at the head of \<^verbatim>\<open>for await (const message of response)\<close>,
    the iterator still having \<open>ms\<close> to yield before it ends with \<open>e\<close>;
  \<^item> \<open>AwaitDelay cs bs ms e\<close> waits on the timer after a character was sent, with \<open>cs\<close>
    the rest of the current block's text, \<open>bs\<close> the blocks after it and \<open>ms\<close>, \<open>e\<close> the
    rest of the iterator.
\<close>

datatype task =
    AwaitVerify "json option"
  | AwaitNext "sdk_message list" ending
  | AwaitDelay string "block list" "sdk_message list" ending

text \<open>
  \<open>sessionIds\<close> and \<open>tokenVerified\<close> are the two Maps of the module. \<open>pending\<close> holds,
  for each socket, the invocations of \<^verbatim>\<open>onMessage\<close> that are suspended; \<open>log\<close> holds,
  for each socket, what the handlers of that socket have done so far.
\<close>

record server =
  sessionIds :: "conn \<rightharpoonup> string"
  tokenVerified :: "conn \<rightharpoonup> bool"
  pending :: "conn \<Rightarrow> task list"
  log :: "conn \<Rightarrow> action list"

definition initial :: server where
  "initial = \<lparr>sessionIds = Map.empty, tokenVerified = Map.empty,
              pending = (\<lambda>_. []), log = (\<lambda>_. [])\<rparr>"

definition emit :: "conn \<Rightarrow> action \<Rightarrow> server \<Rightarrow> server" where
  "emit ws a s = s\<lparr>log := (log s)(ws := log s ws @ [a])\<rparr>"

definition send :: "conn \<Rightarrow> wire \<Rightarrow> server \<Rightarrow> server" where
  "send ws m s = emit ws (Send m) s"

subsection \<open>The callbacks\<close>

definition checkWSAuth :: bool where
  "checkWSAuth = True"

definition onOpen :: "conn \<Rightarrow> server \<Rightarrow> server" where
  "onOpen ws s =
     (if \<not> checkWSAuth then s
      else send ws Ready
             (s\<lparr>sessionIds := (sessionIds s)(ws \<mapsto> []),
                tokenVerified := (tokenVerified s)(ws \<mapsto> False)\<rparr>))"

definition onClose :: "conn \<Rightarrow> server \<Rightarrow> server" where
  "onClose ws s =
     s\<lparr>sessionIds := (sessionIds s)(ws := None),
       tokenVerified := (tokenVerified s)(ws := None)\<rparr>"

text \<open>
  \<^verbatim>\<open>if (currentSessionId) queryOptions.resume = currentSessionId\<close>: an absent entry
  and the empty string both leave \<^verbatim>\<open>resume\<close> unset.
\<close>

definition resume_option :: "string option \<Rightarrow> string option" where
  "resume_option cur = (case cur of None \<Rightarrow> None | Some sid \<Rightarrow> if sid = [] then None else Some sid)"

text \<open>
  The synchronous first part of \<^verbatim>\<open>onMessage\<close>, up to the first \<^verbatim>\<open>await\<close> or to
  its return. The result is the new state and the suspended rest of the invocation, if
  there is one. \<open>onPrompt\<close> is the part after the credential branch, from the test of
  \<^verbatim>\<open>tokenVerified.get(ws)\<close> on. Reading \<^verbatim>\<open>data.token\<close> when \<^verbatim>\<open>data\<close> is
  \<^verbatim>\<open>null\<close> throws outside every \<^verbatim>\<open>try\<close>, which ends the invocation with nothing
  done.
\<close>

definition onPrompt ::
  "environment \<Rightarrow> conn \<Rightarrow> json \<Rightarrow> upstream \<Rightarrow> server \<Rightarrow> server \<times> task option" where
  "onPrompt env ws data up s =
     (if tokenVerified s ws \<noteq> Some True then
        (send ws (Error ''Not authenticated.'') s, None)
      else if \<not> truthy (get_prop data ''prompt'') then (s, None)
      else
        (case get_prop data ''prompt'' of
           Some (JStr prompt) \<Rightarrow>
             if length prompt > 100000 then
               (send ws (Error ''Prompt too long. Maximum 100000 characters'') s, None)
             else if \<not> env_set (ANTHROPIC_API_KEY env) \<and>
                     \<not> env_set (CLAUDE_CODE_OAUTH_TOKEN env) then
               (send ws (Error ''ANTHROPIC_API_KEY or CLAUDE_CODE_OAUTH_TOKEN must be configured'') s,
                None)
             else
               (emit ws (QueryCall prompt (resume_option (sessionIds s ws))) s,
                Some (AwaitNext (fst (query up)) (snd (query up))))
         | _ \<Rightarrow> (s, None)))"

definition onMessage ::
  "environment \<Rightarrow> conn \<Rightarrow> payload \<Rightarrow> upstream \<Rightarrow> server \<Rightarrow> server \<times> task option" where
  "onMessage env ws raw up s =
     (case raw of
        Malformed \<Rightarrow> (s, None)
      | Parsed data \<Rightarrow>
          if data = JNull then (s, None)
          else
            (case get_prop data ''token'' of
               Some tok \<Rightarrow>
                 if truthy (Some tok) then
                   (emit ws (VerifyCall tok) s, Some (AwaitVerify (verifyToken up)))
                 else onPrompt env ws data up s
             | None \<Rightarrow> onPrompt env ws data up s))"

text \<open>
  \<^verbatim>\<open>message.type === "system" && message.subtype === "init" && message.session_id\<close>:
  the session id that the message makes the handler store, if any.
\<close>

fun init_session :: "sdk_message \<Rightarrow> string option" where
  "init_session (SystemMessage subtype (Some sid)) =
     (if subtype = ''init'' \<and> sid \<noteq> [] then Some sid else None)"
| "init_session _ = None"

definition capture :: "conn \<Rightarrow> sdk_message \<Rightarrow> server \<Rightarrow> server" where
  "capture ws m s =
     (case init_session m of
        None \<Rightarrow> s
      | Some sid \<Rightarrow> s\<lparr>sessionIds := (sessionIds s)(ws \<mapsto> sid)\<rparr>)"

text \<open>
  The two nested loops over the blocks of a message and the characters of a block, run
  up to the next \<^verbatim>\<open>await\<close>: after a character is sent the invocation waits on the
  timer; when the blocks are used up it goes back to the \<^verbatim>\<open>for await\<close>.
\<close>

fun relay_blocks ::
  "conn \<Rightarrow> block list \<Rightarrow> sdk_message list \<Rightarrow> ending \<Rightarrow> server \<Rightarrow> server \<times> task option" where
  "relay_blocks ws [] ms e s = (s, Some (AwaitNext ms e))"
| "relay_blocks ws (OtherBlock # bs) ms e s = relay_blocks ws bs ms e s"
| "relay_blocks ws (TextBlock [] # bs) ms e s = relay_blocks ws bs ms e s"
| "relay_blocks ws (TextBlock (c # cs) # bs) ms e s =
     (send ws (Text c) s, Some (AwaitDelay cs bs ms e))"

text \<open>
  A suspended invocation is resumed and runs to its next \<^verbatim>\<open>await\<close> or to its end
  (\<open>None\<close>). An iterator that raises takes the handler to its \<^verbatim>\<open>catch\<close>.
\<close>

fun resume :: "conn \<Rightarrow> task \<Rightarrow> server \<Rightarrow> server \<times> task option" where
  "resume ws (AwaitVerify (Some result)) s =
     (send ws (TokenVerified True result)
        (s\<lparr>tokenVerified := (tokenVerified s)(ws \<mapsto> True)\<rparr>), None)"
| "resume ws (AwaitVerify None) s =
     (send ws (Error ''Token verification failed'') s, None)"
| "resume ws (AwaitNext [] Completes) s = (send ws Done s, None)"
| "resume ws (AwaitNext [] Raises) s =
     (send ws (Error ''Failed to process query'') s, None)"
| "resume ws (AwaitNext (m # ms) e) s =
     (case m of
        AssistantMessage (Some bs) \<Rightarrow> relay_blocks ws bs ms e (capture ws m s)
      | _ \<Rightarrow> (capture ws m s, Some (AwaitNext ms e)))"
| "resume ws (AwaitDelay (c # cs) bs ms e) s =
     (send ws (Text c) s, Some (AwaitDelay cs bs ms e))"
| "resume ws (AwaitDelay [] bs ms e) s = relay_blocks ws bs ms e s"

subsection \<open>The event loop\<close>

text \<open>
  An event is a callback of the socket library or the resumption of the \<open>i\<close>-th suspended
  invocation of a socket. A message comes with what the external services will answer
  to it.
\<close>

datatype event =
    Open conn
  | Message conn payload upstream
  | Resume conn nat
  | Close conn

fun conn_of :: "event \<Rightarrow> conn" where
  "conn_of (Open ws) = ws"
| "conn_of (Message ws _ _) = ws"
| "conn_of (Resume ws _) = ws"
| "conn_of (Close ws) = ws"

fun remove_nth :: "nat \<Rightarrow> 'a list \<Rightarrow> 'a list" where
  "remove_nth i xs = take i xs @ drop (Suc i) xs"

fun spawn :: "conn \<Rightarrow> server \<times> task option \<Rightarrow> server" where
  "spawn ws (s, None) = s"
| "spawn ws (s, Some t) = s\<lparr>pending := (pending s)(ws := pending s ws @ [t])\<rparr>"

fun settle :: "conn \<Rightarrow> nat \<Rightarrow> server \<times> task option \<Rightarrow> server" where
  "settle ws i (s, None) = s\<lparr>pending := (pending s)(ws := remove_nth i (pending s ws))\<rparr>"
| "settle ws i (s, Some t) = s\<lparr>pending := (pending s)(ws := (pending s ws)[i := t])\<rparr>"

fun step :: "environment \<Rightarrow> event \<Rightarrow> server \<Rightarrow> server" where
  "step env (Open ws) s = onOpen ws s"
| "step env (Message ws raw up) s = spawn ws (onMessage env ws raw up s)"
| "step env (Resume ws i) s =
     (if i < length (pending s ws) then settle ws i (resume ws (pending s ws ! i) s) else s)"
| "step env (Close ws) s = onClose ws s"

fun run :: "environment \<Rightarrow> event list \<Rightarrow> server \<Rightarrow> server" where
  "run env [] s = s"
| "run env (e # es) s = run env es (step env e s)"

subsection \<open>What a suspended invocation will still do\<close>

text \<open>
  The characters the relay sends for a list of blocks, for one SDK message and for a whole
  response, in the order of the blocks and of the messages.
\<close>

fun block_text :: "block list \<Rightarrow> string" where
  "block_text [] = []"
| "block_text (TextBlock t # bs) = t @ block_text bs"
| "block_text (OtherBlock # bs) = block_text bs"

fun message_text :: "sdk_message \<Rightarrow> string" where
  "message_text (AssistantMessage (Some bs)) = block_text bs"
| "message_text _ = []"

fun stream_text :: "sdk_message list \<Rightarrow> string" where
  "stream_text [] = []"
| "stream_text (m # ms) = message_text m @ stream_text ms"

text \<open>
  \<open>stored new cur\<close> is the entry of \<^verbatim>\<open>sessionIds\<close> after an optional overwrite;
  \<open>captured ms\<close> is the session id of the last init message of \<open>ms\<close> that carries one.
\<close>

fun stored :: "string option \<Rightarrow> string option \<Rightarrow> string option" where
  "stored None cur = cur"
| "stored (Some sid) cur = Some sid"

fun captured :: "sdk_message list \<Rightarrow> string option" where
  "captured [] = None"
| "captured (m # ms) = stored (captured ms) (init_session m)"

text \<open>The message that ends a turn: \<^verbatim>\<open>done\<close> after the loop, the error of the \<^verbatim>\<open>catch\<close>.\<close>

fun closing :: "ending \<Rightarrow> wire" where
  "closing Completes = Done"
| "closing Raises = Error ''Failed to process query''"

text \<open>
  For a suspended invocation: how many times it has to be resumed before it ends, what it
  will send until then, which session id it will leave in \<^verbatim>\<open>sessionIds\<close>, and whether
  it will set \<^verbatim>\<open>tokenVerified\<close>. \<open>effect\<close> puts the three together.
\<close>

fun task_steps :: "task \<Rightarrow> nat" where
  "task_steps (AwaitVerify r) = 1"
| "task_steps (AwaitNext ms e) = length ms + length (stream_text ms) + 1"
| "task_steps (AwaitDelay cs bs ms e) =
     1 + length cs + length (block_text bs) + (length ms + length (stream_text ms) + 1)"

fun task_wire :: "task \<Rightarrow> wire list" where
  "task_wire (AwaitVerify (Some r)) = [TokenVerified True r]"
| "task_wire (AwaitVerify None) = [Error ''Token verification failed'']"
| "task_wire (AwaitNext ms e) = map Text (stream_text ms) @ [closing e]"
| "task_wire (AwaitDelay cs bs ms e) =
     map Text (cs @ block_text bs @ stream_text ms) @ [closing e]"

fun task_session :: "task \<Rightarrow> string option" where
  "task_session (AwaitVerify r) = None"
| "task_session (AwaitNext ms e) = captured ms"
| "task_session (AwaitDelay cs bs ms e) = captured ms"

fun task_verifies :: "task \<Rightarrow> bool" where
  "task_verifies (AwaitVerify (Some r)) = True"
| "task_verifies _ = False"

definition effect :: "conn \<Rightarrow> task \<Rightarrow> server \<Rightarrow> server" where
  "effect ws t s =
     s\<lparr>sessionIds := (sessionIds s)(ws := stored (task_session t) (sessionIds s ws)),
       tokenVerified := (tokenVerified s)
         (ws := if task_verifies t then Some True else tokenVerified s ws),
       log := (log s)(ws := log s ws @ map Send (task_wire t))\<rparr>"

fun streaming :: "task \<Rightarrow> bool" where
  "streaming (AwaitVerify r) = False"
| "streaming _ = True"

subsection \<open>One connection within the server\<close>

text \<open>
  Everything the server holds about one socket, and the events of a schedule that belong
  to one socket.
\<close>

definition view :: "conn \<Rightarrow> server \<Rightarrow> string option \<times> bool option \<times> task list \<times> action list" where
  "view ws s = (sessionIds s ws, tokenVerified s ws, pending s ws, log s ws)"

definition events_of :: "conn \<Rightarrow> event list \<Rightarrow> event list" where
  "events_of ws sched = filter (\<lambda>e. conn_of e = ws) sched"

text \<open>
  \<open>gated l\<close>: no \<^verbatim>\<open>text\<close> and no \<^verbatim>\<open>done\<close> message occurs in \<open>l\<close> before the first
  \<^verbatim>\<open>tokenVerified\<close> message with \<^verbatim>\<open>success: true\<close>. \<open>verified_sent l\<close>: such a
  message occurs in \<open>l\<close>.
\<close>

fun gated :: "action list \<Rightarrow> bool" where
  "gated [] = True"
| "gated (Send (TokenVerified True r) # l) = True"
| "gated (Send (Text c) # l) = False"
| "gated (Send Done # l) = False"
| "gated (a # l) = gated l"

fun verified_sent :: "action list \<Rightarrow> bool" where
  "verified_sent [] = False"
| "verified_sent (Send (TokenVerified True r) # l) = True"
| "verified_sent (a # l) = verified_sent l"

text \<open>The calls of \<^verbatim>\<open>query\<close> in a log: the prompt and the \<^verbatim>\<open>resume\<close> option of each.\<close>

fun query_calls :: "action list \<Rightarrow> (string \<times> string option) list" where
  "query_calls [] = []"
| "query_calls (QueryCall p h # l) = (p, h) # query_calls l"
| "query_calls (a # l) = query_calls l"

text \<open>
  A turn is a prompt and the response the agent gives to it. Its events on an idle socket:
  the client's message \<^verbatim>\<open>{prompt: input}\<close>, then the resumptions that take the one
  suspended invocation to its end.
\<close>

type_synonym turn = "string \<times> sdk_message list \<times> ending"

definition prompt_message :: "string \<Rightarrow> json" where
  "prompt_message p = JObj [(''prompt'', JStr p)]"

fun turn_events :: "conn \<Rightarrow> turn \<Rightarrow> event list" where
  "turn_events ws (p, ms, e) =
     Message ws (Parsed (prompt_message p)) \<lparr>verifyToken = None, query = (ms, e)\<rparr> #
     replicate (length ms + length (stream_text ms) + 1) (Resume ws 0)"

text \<open>
  The \<^verbatim>\<open>resume\<close> options of a sequence of turns, each run to its end before the next
  starts, from the option \<open>h\<close> that the first one gets.
\<close>

fun handles :: "string option \<Rightarrow> turn list \<Rightarrow> (string \<times> string option) list" where
  "handles h [] = []"
| "handles h ((p, ms, e) # ts) = (p, h) # handles (stored (captured ms) h) ts"

subsection \<open>A connection that has signed in\<close>

text \<open>
  Values for the examples: an environment with an API key, the client's credential
  message, an identity provider that accepts or rejects, and the server after socket
  \<open>0\<close> has opened and its credential has been verified.
\<close>

definition env_ok :: environment where
  "env_ok = \<lparr>ANTHROPIC_API_KEY = Some ''sk'', CLAUDE_CODE_OAUTH_TOKEN = None\<rparr>"

definition credential :: json where
  "credential = JObj [(''token'', JStr ''jwt'')]"

definition accepts :: upstream where
  "accepts = \<lparr>verifyToken = Some (JObj [(''sub'', JStr ''user'')]), query = ([], Completes)\<rparr>"

definition rejects :: upstream where
  "rejects = \<lparr>verifyToken = None, query = ([], Completes)\<rparr>"

definition answers :: "sdk_message list \<Rightarrow> ending \<Rightarrow> upstream" where
  "answers ms e = \<lparr>verifyToken = None, query = (ms, e)\<rparr>"

definition signed_in :: server where
  "signed_in = run env_ok [Open 0, Message 0 (Parsed credential) accepts, Resume 0 0] initial"

text \<open>
  The invariant behind the authentication gate, for one socket: the log is gated, and
  once the socket is verified or one of its invocations is relaying a response, a
  successful \<^verbatim>\<open>tokenVerified\<close> message has been sent on it.
\<close>

definition admitted :: "conn \<Rightarrow> server \<Rightarrow> bool" where
  "admitted ws s =
     (gated (log s ws) \<and>
      (tokenVerified s ws = Some True \<or> (\<exists>t \<in> set (pending s ws). streaming t)
         \<longrightarrow> verified_sent (log s ws)))"

text \<open>
  The signed-in server after a first prompt whose response has begun: its first character
  is sent and the invocation waits on the timer.
\<close>

definition mid_stream :: server where
  "mid_stream = run env_ok
     [Message 0 (Parsed (prompt_message ''one''))
        (answers [AssistantMessage (Some [TextBlock ''ab''])] Completes),
      Resume 0 0] signed_in"

section \<open>Properties\<close>

subsection \<open>Running a suspended invocation to its end\<close>

lemma relay_blocks_effect:
  "\<exists>s' t'. relay_blocks ws bs ms e s = (s', Some t') \<and>
     Suc (task_steps t') = task_steps (AwaitDelay [] bs ms e) \<and>
     pending s' = pending s \<and>
     effect ws t' s' = effect ws (AwaitDelay [] bs ms e) s"
  by (induction ws bs ms e s rule: relay_blocks.induct)
     (simp_all add: effect_def send_def emit_def)

lemma stored_assoc: "stored a (stored b c) = stored (stored a b) c"
  by (cases a) simp_all

lemma stored_None_right [simp]: "stored a None = a"
  by (cases a) simp_all

lemma capture_stored:
  "capture ws m s = s\<lparr>sessionIds := (sessionIds s)(ws := stored (init_session m) (sessionIds s ws))\<rparr>"
  by (cases "init_session m") (simp_all add: capture_def)

lemma effect_capture_other:
  "message_text m = [] \<Longrightarrow>
   effect ws (AwaitNext ms e) (capture ws m s) = effect ws (AwaitNext (m # ms) e) s"
  by (simp add: effect_def capture_stored stored_assoc)

lemma effect_capture_assistant:
  "effect ws (AwaitDelay [] bs ms e) (capture ws (AssistantMessage (Some bs)) s) =
   effect ws (AwaitNext (AssistantMessage (Some bs) # ms) e) s"
  by (simp add: effect_def capture_stored stored_assoc)

lemma pending_capture: "pending (capture ws m s) = pending s"
  by (simp add: capture_stored)

lemma resume_effect:
  "\<exists>s' r. resume ws t s = (s', r) \<and> pending s' = pending s \<and>
     (case r of
        None \<Rightarrow> task_steps t = 1 \<and> s' = effect ws t s
      | Some t' \<Rightarrow> task_steps t = Suc (task_steps t') \<and> effect ws t' s' = effect ws t s)"
proof (induction ws t s rule: resume.induct)
  case (5 ws m ms e s)
  show ?case
  proof (cases "\<exists>bs. m = AssistantMessage (Some bs)")
    case True
    then obtain bs where m: "m = AssistantMessage (Some bs)" by blast
    obtain s' t' where r: "relay_blocks ws bs ms e (capture ws m s) = (s', Some t')"
      and n: "Suc (task_steps t') = task_steps (AwaitDelay [] bs ms e)"
      and p: "pending s' = pending (capture ws m s)"
      and f: "effect ws t' s' = effect ws (AwaitDelay [] bs ms e) (capture ws m s)"
      using relay_blocks_effect [of ws bs ms e "capture ws m s"] by blast
    have "effect ws t' s' = effect ws (AwaitNext (m # ms) e) s"
      using f effect_capture_assistant [of ws bs ms e s] by (simp add: m)
    with r n p show ?thesis
      by (simp add: m pending_capture)
  next
    case False
    then have t: "message_text m = []"
      by (cases m rule: message_text.cases) simp_all
    from False have "resume ws (AwaitNext (m # ms) e) s = (capture ws m s, Some (AwaitNext ms e))"
      by (cases m rule: message_text.cases) simp_all
    with t show ?thesis
      by (simp add: effect_capture_other pending_capture)
  qed
next
  case (7 ws bs ms e s)
  from relay_blocks_effect [of ws bs ms e s] show ?case by auto
qed (simp_all add: effect_def send_def emit_def)

lemma task_steps_pos: "0 < task_steps t"
  by (cases t) simp_all

lemma effect_pending_update:
  "effect ws t (s\<lparr>pending := p\<rparr>) = (effect ws t s)\<lparr>pending := p\<rparr>"
  by (simp add: effect_def)

lemma pending_effect: "pending (effect ws t s) = pending s"
  by (simp add: effect_def)

lemma run_append: "run env (xs @ ys) s = run env ys (run env xs s)"
  by (induction xs arbitrary: s) simp_all

lemma drain:
  "pending s ws = ts @ t # us \<Longrightarrow>
   run env (replicate (task_steps t) (Resume ws (length ts))) s =
   (effect ws t s)\<lparr>pending := (pending s)(ws := ts @ us)\<rparr>"
proof (induction "task_steps t" arbitrary: t s)
  case 0
  then show ?case using task_steps_pos [of t] by simp
next
  case (Suc n)
  obtain s' r where res: "resume ws t s = (s', r)" and p: "pending s' = pending s"
    and c: "case r of None \<Rightarrow> task_steps t = 1 \<and> s' = effect ws t s
            | Some t' \<Rightarrow> task_steps t = Suc (task_steps t') \<and> effect ws t' s' = effect ws t s"
    using resume_effect [of ws t s] by blast
  have nth: "pending s ws ! length ts = t" and len: "length ts < length (pending s ws)"
    using Suc.prems by simp_all
  show ?case
  proof (cases r)
    case None
    with c have one: "task_steps t = 1" and s': "s' = effect ws t s" by simp_all
    have "step env (Resume ws (length ts)) s =
          (effect ws t s)\<lparr>pending := (pending s)(ws := ts @ us)\<rparr>"
      using res None nth len Suc.prems s' p
      by (simp add: pending_effect)
    then show ?thesis by (simp add: one)
  next
    case (Some t')
    with c have n: "task_steps t = Suc (task_steps t')"
      and e: "effect ws t' s' = effect ws t s" by simp_all
    let ?s1 = "s'\<lparr>pending := (pending s)(ws := ts @ t' # us)\<rparr>"
    have st: "step env (Resume ws (length ts)) s = ?s1"
      using res Some nth len Suc.prems p
      by simp
    have "n = task_steps t'" using Suc.hyps(2) n by simp
    moreover have "pending ?s1 ws = ts @ t' # us" by simp
    ultimately have "run env (replicate (task_steps t') (Resume ws (length ts))) ?s1 =
        (effect ws t' ?s1)\<lparr>pending := (pending ?s1)(ws := ts @ us)\<rparr>"
      by (rule Suc.hyps(1))
    then show ?thesis
      using st e by (simp add: n effect_pending_update)
  qed
qed

lemma relay_blocks_frame:
  "ws' \<noteq> ws \<Longrightarrow> view ws (fst (relay_blocks ws' bs ms e s)) = view ws s"
  by (induction ws' bs ms e s rule: relay_blocks.induct)
     (simp_all add: view_def send_def emit_def)

lemma capture_frame:
  "ws' \<noteq> ws \<Longrightarrow> view ws (capture ws' m s) = view ws s"
  by (simp add: view_def capture_stored)

lemma resume_frame:
  "ws' \<noteq> ws \<Longrightarrow> view ws (fst (resume ws' t s)) = view ws s"
proof (induction ws' t s rule: resume.induct)
  case (5 ws' m ms e s)
  then show ?case
    by (simp add: relay_blocks_frame capture_frame split: sdk_message.splits option.splits)
next
  case (7 ws' bs ms e s)
  then show ?case by (simp add: relay_blocks_frame)
qed (simp_all add: view_def send_def emit_def)

lemma onPrompt_frame:
  "ws' \<noteq> ws \<Longrightarrow> view ws (fst (onPrompt env ws' data up s)) = view ws s"
  by (simp add: onPrompt_def view_def send_def emit_def
      split: option.splits json.splits)

lemma onMessage_frame:
  "ws' \<noteq> ws \<Longrightarrow> view ws (fst (onMessage env ws' raw up s)) = view ws s"
  by (simp add: onMessage_def onPrompt_frame split: payload.splits option.splits)
     (simp add: view_def emit_def)

lemma view_pending_other:
  "ws' \<noteq> ws \<Longrightarrow> view ws (s\<lparr>pending := (pending s)(ws' := p)\<rparr>) = view ws s"
  by (simp add: view_def)

lemma step_frame:
  "conn_of e \<noteq> ws \<Longrightarrow> view ws (step env e s) = view ws s"
proof (cases e)
  case (Open ws')
  then show "conn_of e \<noteq> ws \<Longrightarrow> ?thesis"
    by (simp add: onOpen_def view_def send_def emit_def checkWSAuth_def)
next
  case (Message ws' raw up)
  assume "conn_of e \<noteq> ws"
  then have ne: "ws' \<noteq> ws" using Message by simp
  obtain s' r where om: "onMessage env ws' raw up s = (s', r)" by force
  have "view ws s' = view ws s" using onMessage_frame [OF ne, of env raw up s] om by simp
  then show ?thesis using Message om ne
    by (cases r) (simp_all add: view_pending_other)
next
  case (Resume ws' i)
  assume "conn_of e \<noteq> ws"
  then have ne: "ws' \<noteq> ws" using Resume by simp
  obtain s' r where om: "resume ws' (pending s ws' ! i) s = (s', r)" by force
  have "view ws s' = view ws s" using resume_frame [OF ne, of "pending s ws' ! i" s] om by simp
  then show ?thesis using Resume om ne
    by (cases r) (simp_all add: view_pending_other)
next
  case (Close ws')
  then show "conn_of e \<noteq> ws \<Longrightarrow> ?thesis"
    by (simp add: onClose_def view_def)
qed

lemma relay_blocks_local:
  assumes v: "view ws s = view ws s'"
  shows "snd (relay_blocks ws bs ms e s) = snd (relay_blocks ws bs ms e s') \<and>
   view ws (fst (relay_blocks ws bs ms e s)) = view ws (fst (relay_blocks ws bs ms e s'))"
proof -
  have e: "tokenVerified s' ws = tokenVerified s ws" "sessionIds s' ws = sessionIds s ws"
    "pending s' ws = pending s ws" "log s' ws = log s ws"
    using v by (simp_all add: view_def)
  show ?thesis
  proof (induction bs)
    case Nil
    then show ?case using v by simp
  next
    case (Cons b bs)
    show ?case
    proof (cases b)
      case (TextBlock t)
      then show ?thesis using Cons
        by (cases t) (simp_all add: view_def send_def emit_def e)
    next
      case OtherBlock
      then show ?thesis using Cons by simp
    qed
  qed
qed

lemma capture_local:
  "view ws s = view ws s' \<Longrightarrow> view ws (capture ws m s) = view ws (capture ws m s')"
  by (simp add: view_def capture_stored)

lemma resume_local:
  assumes v: "view ws s = view ws s'"
  shows "snd (resume ws t s) = snd (resume ws t s') \<and>
   view ws (fst (resume ws t s)) = view ws (fst (resume ws t s'))"
proof -
  have e: "tokenVerified s' ws = tokenVerified s ws" "sessionIds s' ws = sessionIds s ws"
    "pending s' ws = pending s ws" "log s' ws = log s ws"
    using v by (simp_all add: view_def)
  show ?thesis
  proof (cases t)
    case (AwaitVerify r)
    then show ?thesis by (cases r) (simp_all add: view_def send_def emit_def e)
  next
    case (AwaitNext ms en)
    show ?thesis
    proof (cases ms)
      case Nil
      then show ?thesis using AwaitNext
        by (cases en) (simp_all add: view_def send_def emit_def e)
    next
      case (Cons m ms')
      have c: "view ws (capture ws m s) = view ws (capture ws m s')"
        using v by (rule capture_local)
      show ?thesis
      proof (cases "\<exists>bs. m = AssistantMessage (Some bs)")
        case True
        then obtain bs where m: "m = AssistantMessage (Some bs)" by blast
        show ?thesis using relay_blocks_local [OF c, of bs ms' en] AwaitNext Cons m
          by simp
      next
        case False
        then have "resume ws t s = (capture ws m s, Some (AwaitNext ms' en))"
          and "resume ws t s' = (capture ws m s', Some (AwaitNext ms' en))"
          using AwaitNext Cons by (cases m rule: message_text.cases; simp)+
        then show ?thesis using c by simp
      qed
    qed
  next
    case (AwaitDelay cs bs ms en)
    show ?thesis
    proof (cases cs)
      case Nil
      then show ?thesis using AwaitDelay relay_blocks_local [OF v, of bs ms en] by simp
    next
      case (Cons c cs')
      then show ?thesis using AwaitDelay by (simp add: view_def send_def emit_def e)
    qed
  qed
qed

lemma onPrompt_local:
  assumes v: "view ws s = view ws s'"
  shows "snd (onPrompt env ws data up s) = snd (onPrompt env ws data up s') \<and>
   view ws (fst (onPrompt env ws data up s)) = view ws (fst (onPrompt env ws data up s'))"
proof -
  have e: "tokenVerified s' ws = tokenVerified s ws" "sessionIds s' ws = sessionIds s ws"
    "pending s' ws = pending s ws" "log s' ws = log s ws"
    using v by (simp_all add: view_def)
  show ?thesis
  proof (cases "get_prop data ''prompt''")
    case None
    then show ?thesis by (simp add: onPrompt_def view_def send_def emit_def e)
  next
    case (Some j)
    then show ?thesis
      by (cases j) (simp_all add: onPrompt_def view_def send_def emit_def e)
  qed
qed

lemma onMessage_local:
  assumes v: "view ws s = view ws s'"
  shows "snd (onMessage env ws raw up s) = snd (onMessage env ws raw up s') \<and>
   view ws (fst (onMessage env ws raw up s)) = view ws (fst (onMessage env ws raw up s'))"
proof (cases raw)
  case Malformed
  then show ?thesis using v by (simp add: onMessage_def)
next
  case (Parsed data)
  have e: "tokenVerified s' ws = tokenVerified s ws" "sessionIds s' ws = sessionIds s ws"
    "pending s' ws = pending s ws" "log s' ws = log s ws"
    using v by (simp_all add: view_def)
  show ?thesis
  proof (cases "get_prop data ''token''")
    case None
    then show ?thesis using Parsed v onPrompt_local [OF v, of env data up]
      by (simp add: onMessage_def)
  next
    case (Some tok)
    then show ?thesis using Parsed v onPrompt_local [OF v, of env data up]
      by (simp add: onMessage_def) (simp add: view_def emit_def e)
  qed
qed

lemma step_local:
  assumes v: "view ws s = view ws s'" and c: "conn_of e = ws"
  shows "view ws (step env e s) = view ws (step env e s')"
proof (cases e)
  case (Open ws')
  then show ?thesis using v c
    by (simp add: onOpen_def view_def send_def emit_def checkWSAuth_def)
next
  case (Message ws' raw up)
  obtain s1 r1 where a: "onMessage env ws raw up s = (s1, r1)" by force
  obtain s2 r2 where b: "onMessage env ws raw up s' = (s2, r2)" by force
  from onMessage_local [OF v, of env raw up] a b
  have r: "r2 = r1" and w: "view ws s1 = view ws s2" by simp_all
  have "view ws (spawn ws (s1, r1)) = view ws (spawn ws (s2, r1))"
    using w by (cases r1) (simp_all add: view_def)
  moreover have "step env e s = spawn ws (s1, r1)"
    using Message c a by simp
  moreover have "step env e s' = spawn ws (s2, r1)"
    using Message c b r by simp
  ultimately show ?thesis by simp
next
  case (Resume ws' i)
  have p: "pending s' ws = pending s ws" using v by (simp add: view_def)
  obtain s1 r1 where a: "resume ws (pending s ws ! i) s = (s1, r1)" by force
  obtain s2 r2 where b: "resume ws (pending s ws ! i) s' = (s2, r2)" by force
  from resume_local [OF v, of "pending s ws ! i"] a b
  have r: "r2 = r1" and w: "view ws s1 = view ws s2" by simp_all
  have "view ws (settle ws i (s1, r1)) = view ws (settle ws i (s2, r1))"
    using w by (cases r1) (simp_all add: view_def)
  moreover have "step env e s = (if i < length (pending s ws) then settle ws i (s1, r1) else s)"
    using Resume c a by simp
  moreover have "step env e s' = (if i < length (pending s ws) then settle ws i (s2, r1) else s')"
    using Resume c b r p by simp
  ultimately show ?thesis using v by simp
next
  case (Close ws')
  then show ?thesis using v c
    by (simp add: onClose_def view_def)
qed

lemma run_local:
  "view ws s = view ws s' \<Longrightarrow>
   view ws (run env es s) = view ws (run env (filter (\<lambda>e. conn_of e = ws) es) s')"
proof (induction es arbitrary: s s')
  case Nil
  then show ?case by simp
next
  case (Cons e es)
  show ?case
  proof (cases "conn_of e = ws")
    case True
    have "view ws (step env e s) = view ws (step env e s')"
      using Cons.prems True by (rule step_local)
    then show ?thesis using True Cons.IH by simp
  next
    case False
    have "view ws (step env e s) = view ws s'"
      using step_frame [OF False] Cons.prems by simp
    then show ?thesis using False Cons.IH by simp
  qed
qed

subsection \<open>The first, synchronous part of a message\<close>

lemma view_run_events_of:
  "view ws (run env sched s) = view ws (run env (events_of ws sched) s)"
  unfolding events_of_def by (rule run_local) simp

lemma credential_step:
  "get_prop data ''token'' = Some tok \<Longrightarrow> truthy (Some tok) \<Longrightarrow>
   step env (Message ws (Parsed data) up) s =
   s\<lparr>pending := (pending s)(ws := pending s ws @ [AwaitVerify (verifyToken up)]),
     log := (log s)(ws := log s ws @ [VerifyCall tok])\<rparr>"
  by (cases data) (simp_all add: onMessage_def emit_def)

lemma prompt_step:
  assumes "\<not> truthy (get_prop data ''token'')"
    and "tokenVerified s ws = Some True"
    and "get_prop data ''prompt'' = Some (JStr prompt)"
    and "prompt \<noteq> []" and "length prompt \<le> 100000"
    and "env_set (ANTHROPIC_API_KEY env) \<or> env_set (CLAUDE_CODE_OAUTH_TOKEN env)"
  shows "step env (Message ws (Parsed data) up) s =
   s\<lparr>pending := (pending s)(ws := pending s ws @ [AwaitNext (fst (query up)) (snd (query up))]),
     log := (log s)(ws := log s ws @ [QueryCall prompt (resume_option (sessionIds s ws))])\<rparr>"
proof -
  have n: "data \<noteq> JNull" using assms(3) by auto
  have "onPrompt env ws data up s =
    (emit ws (QueryCall prompt (resume_option (sessionIds s ws))) s,
     Some (AwaitNext (fst (query up)) (snd (query up))))"
    using assms by (auto simp add: onPrompt_def)
  then show ?thesis using n assms(1)
    by (cases "get_prop data ''token''") (simp_all add: onMessage_def emit_def)
qed

lemma init_stored_at_once:
  assumes "i < length (pending s ws)" and "pending s ws ! i = AwaitNext (m # ms) e"
    and "init_session m = Some sid"
  shows "sessionIds (step env (Resume ws i) s) ws = Some sid \<and>
         pending (step env (Resume ws i) s) ws ! i = AwaitNext ms e"
proof -
  have "resume ws (AwaitNext (m # ms) e) s = (capture ws m s, Some (AwaitNext ms e))"
    using assms(3) by (cases m rule: init_session.cases) simp_all
  then have "step env (Resume ws i) s =
      (capture ws m s)\<lparr>pending := (pending (capture ws m s))
         (ws := (pending (capture ws m s) ws)[i := AwaitNext ms e])\<rparr>"
    using assms(1,2) by simp
  then show ?thesis using assms(1,3) by (simp add: capture_stored)
qed

lemma onPrompt_reads_prompt:
  "get_prop data' ''prompt'' = get_prop data ''prompt'' \<Longrightarrow>
   onPrompt env ws data' up s = onPrompt env ws data up s"
  by (simp add: onPrompt_def)

lemma falsy_token_step:
  assumes "get_prop data ''token'' = Some tok" and "\<not> truthy (Some tok)"
  shows "step env (Message ws (Parsed data) up) s = spawn ws (onPrompt env ws data up s)"
proof -
  have "data \<noteq> JNull" using assms(1) by auto
  then show ?thesis using assms by (simp add: onMessage_def)
qed

lemma no_token_step:
  assumes "get_prop data ''token'' = None" and "data \<noteq> JNull"
  shows "step env (Message ws (Parsed data) up) s = spawn ws (onPrompt env ws data up s)"
  using assms by (simp add: onMessage_def)

subsection \<open>The example states\<close>

lemma signed_in_eq:
  "signed_in = \<lparr>sessionIds = [0 \<mapsto> []], tokenVerified = [0 \<mapsto> True],
     pending = (\<lambda>_. []),
     log = (\<lambda>_. [])(0 := [Send Ready, VerifyCall (JStr ''jwt''),
                          Send (TokenVerified True (JObj [(''sub'', JStr ''user'')]))])\<rparr>"
  by (simp add: signed_in_def initial_def onOpen_def checkWSAuth_def send_def emit_def
      onMessage_def credential_def accepts_def fun_upd_idem_iff)

lemma signed_in_view:
  "tokenVerified signed_in 0 = Some True" "sessionIds signed_in 0 = Some []"
  "pending signed_in 0 = []"
  "log signed_in 0 = [Send Ready, VerifyCall (JStr ''jwt''),
                      Send (TokenVerified True (JObj [(''sub'', JStr ''user'')]))]"
  by (simp_all add: signed_in_eq)

lemma env_ok_key: "env_set (ANTHROPIC_API_KEY env_ok) \<or> env_set (CLAUDE_CODE_OAUTH_TOKEN env_ok)"
  by (simp add: env_ok_def env_set_def)

subsection \<open>A credential message and its verification\<close>

lemma credential_view:
  assumes "get_prop data ''token'' = Some tok" and "truthy (Some tok)"
    and "events_of ws sched = [Message ws (Parsed data) up, Resume ws (length (pending s ws))]"
  shows "view ws (run env sched s) =
     (sessionIds s ws,
      (if verifyToken up = None then tokenVerified s ws else Some True),
      pending s ws,
      log s ws @ VerifyCall tok # map Send (task_wire (AwaitVerify (verifyToken up))))"
proof -
  let ?t = "AwaitVerify (verifyToken up)"
  let ?s0 = "s\<lparr>pending := (pending s)(ws := pending s ws @ [?t]),
              log := (log s)(ws := log s ws @ [VerifyCall tok])\<rparr>"
  have p: "pending ?s0 ws = pending s ws @ ?t # []" by simp
  have "run env (replicate (task_steps ?t) (Resume ws (length (pending s ws)))) ?s0 =
        (effect ws ?t ?s0)\<lparr>pending := (pending ?s0)(ws := pending s ws @ [])\<rparr>"
    using p by (rule drain)
  then have "run env (events_of ws sched) s =
        (effect ws ?t ?s0)\<lparr>pending := (pending ?s0)(ws := pending s ws @ [])\<rparr>"
    using assms credential_step [OF assms(1,2), of env ws up s] by simp
  then have "view ws (run env sched s) =
        view ws ((effect ws ?t ?s0)\<lparr>pending := (pending ?s0)(ws := pending s ws @ [])\<rparr>)"
    using view_run_events_of [of ws env sched s] by simp
  then show ?thesis
    by (cases "verifyToken up") (simp_all add: view_def effect_def)
qed

subsection \<open>What one resumption changes\<close>

lemma relay_blocks_shape:
  "\<exists>l t'. log (fst (relay_blocks ws bs ms e s)) ws = log s ws @ map Send l \<and>
     tokenVerified (fst (relay_blocks ws bs ms e s)) = tokenVerified s \<and>
     snd (relay_blocks ws bs ms e s) = Some t' \<and> streaming t'"
proof (induction bs)
  case Nil
  have "log s ws = log s ws @ map Send []" by simp
  then show ?case by (metis relay_blocks.simps(1) fst_conv snd_conv streaming.simps(2))
next
  case (Cons b bs)
  show ?case
  proof (cases b)
    case (TextBlock t)
    show ?thesis
    proof (cases t)
      case Nil
      then show ?thesis using TextBlock Cons by simp
    next
      case (Cons c cs)
      have "log (send ws (Text c) s) ws = log s ws @ map Send [Text c]"
        by (simp add: send_def emit_def)
      moreover have "tokenVerified (send ws (Text c) s) = tokenVerified s"
        by (simp add: send_def emit_def)
      ultimately show ?thesis using TextBlock Cons
        by (metis relay_blocks.simps(4) fst_conv snd_conv streaming.simps(3))
    qed
  next
    case OtherBlock
    then show ?thesis using Cons by simp
  qed
qed

lemma capture_shape:
  "log (capture ws m s) = log s" "tokenVerified (capture ws m s) = tokenVerified s"
  by (simp_all add: capture_stored)

lemma resume_stream_shape:
  assumes "streaming t"
  shows "\<exists>l. log (fst (resume ws t s)) ws = log s ws @ map Send l \<and>
     tokenVerified (fst (resume ws t s)) = tokenVerified s \<and>
     (\<forall>t'. snd (resume ws t s) = Some t' \<longrightarrow> streaming t')"
proof (cases t)
  case (AwaitVerify r)
  then show ?thesis using assms by simp
next
  case (AwaitNext ms en)
  show ?thesis
  proof (cases ms)
    case Nil
    have "log (send ws m s) ws = log s ws @ map Send [m]" for m
      by (simp add: send_def emit_def)
    moreover have "tokenVerified (send ws m s) = tokenVerified s" for m
      by (simp add: send_def emit_def)
    moreover have "resume ws t s = (send ws (closing en) s, None)"
      using AwaitNext Nil by (cases en) simp_all
    ultimately show ?thesis
      by (metis fst_conv snd_conv option.distinct(1))
  next
    case (Cons m ms')
    show ?thesis
    proof (cases "\<exists>bs. m = AssistantMessage (Some bs)")
      case True
      then obtain bs where m: "m = AssistantMessage (Some bs)" by blast
      have "resume ws t s = relay_blocks ws bs ms' en (capture ws m s)"
        using AwaitNext Cons m by simp
      then show ?thesis
        using relay_blocks_shape [of ws bs ms' en "capture ws m s"]
        by (auto simp add: capture_shape)
    next
      case False
      then have "resume ws t s = (capture ws m s, Some (AwaitNext ms' en))"
        using AwaitNext Cons by (cases m rule: message_text.cases) simp_all
      moreover have "log s ws = log s ws @ map Send []" by simp
      ultimately show ?thesis
        by (metis capture_shape fst_conv snd_conv option.inject streaming.simps(2))
    qed
  qed
next
  case (AwaitDelay cs bs ms en)
  show ?thesis
  proof (cases cs)
    case Nil
    then show ?thesis
      using AwaitDelay relay_blocks_shape [of ws bs ms en s] by auto
  next
    case (Cons c cs')
    have "log (send ws (Text c) s) ws = log s ws @ map Send [Text c]"
      by (simp add: send_def emit_def)
    moreover have "tokenVerified (send ws (Text c) s) = tokenVerified s"
      by (simp add: send_def emit_def)
    ultimately show ?thesis using AwaitDelay Cons
      by (metis resume.simps(6) fst_conv snd_conv option.inject streaming.simps(3))
  qed
qed

lemma resume_verify_shape:
  "log (fst (resume ws (AwaitVerify r) s)) ws = log s ws @ map Send (task_wire (AwaitVerify r))"
  "tokenVerified (fst (resume ws (AwaitVerify r) s)) ws =
     (if r = None then tokenVerified s ws else Some True)"
  "snd (resume ws (AwaitVerify r) s) = None"
  "sessionIds (fst (resume ws (AwaitVerify r) s)) = sessionIds s"
  by (cases r; simp add: send_def emit_def)+

lemma resume_keeps_verified:
  "tokenVerified s ws = Some True \<Longrightarrow> tokenVerified (fst (resume ws' t s)) ws = Some True"
proof (cases "streaming t")
  case True
  assume "tokenVerified s ws = Some True"
  then show ?thesis using resume_stream_shape [OF True, of ws' s] by auto
next
  case False
  assume v: "tokenVerified s ws = Some True"
  from False obtain r where t: "t = AwaitVerify r" by (cases t) simp_all
  show ?thesis using v unfolding t by (cases r) (simp_all add: send_def emit_def)
qed

lemma resume_sends:
  assumes "streaming t"
  shows "\<exists>l. log (fst (resume ws t s)) ws = log s ws @ map Send l \<and>
     (case snd (resume ws t s) of
        None \<Rightarrow> task_wire t = l
      | Some t' \<Rightarrow> streaming t' \<and> task_wire t = l @ task_wire t')"
proof -
  obtain l where l: "log (fst (resume ws t s)) ws = log s ws @ map Send l"
    and st: "\<forall>t'. snd (resume ws t s) = Some t' \<longrightarrow> streaming t'"
    using resume_stream_shape [OF assms, of ws s] by blast
  obtain s' r where res: "resume ws t s = (s', r)"
    and c: "case r of None \<Rightarrow> task_steps t = 1 \<and> s' = effect ws t s
            | Some t' \<Rightarrow> task_steps t = Suc (task_steps t') \<and> effect ws t' s' = effect ws t s"
    using resume_effect [of ws t s] by blast
  have inj: "map Send a = map Send b \<Longrightarrow> a = b" for a b :: "wire list"
    by (simp add: inj_on_def)
  show ?thesis
  proof (cases r)
    case None
    then have "log s' ws = log s ws @ map Send (task_wire t)"
      using c by (simp add: effect_def)
    then have "task_wire t = l" using l res inj by simp
    then show ?thesis using l res None by auto
  next
    case (Some t')
    then have "log (effect ws t' s') ws = log (effect ws t s) ws" using c by simp
    then have "log s' ws @ map Send (task_wire t') = log s ws @ map Send (task_wire t)"
      by (simp add: effect_def)
    then have "map Send (l @ task_wire t') = map Send (task_wire t)"
      using l res by simp
    then have "task_wire t = l @ task_wire t'" using inj by metis
    then show ?thesis using l res Some st by auto
  qed
qed

subsection \<open>What the first part of a message changes\<close>

lemma onPrompt_maps:
  "sessionIds (fst (onPrompt env ws data up s)) = sessionIds s \<and>
   tokenVerified (fst (onPrompt env ws data up s)) = tokenVerified s"
proof (cases "get_prop data ''prompt''")
  case None
  then show ?thesis by (simp add: onPrompt_def send_def emit_def)
next
  case (Some j)
  then show ?thesis by (cases j) (simp_all add: onPrompt_def send_def emit_def)
qed

lemma onMessage_maps:
  "sessionIds (fst (onMessage env ws raw up s)) = sessionIds s \<and>
   tokenVerified (fst (onMessage env ws raw up s)) = tokenVerified s"
proof (cases raw)
  case Malformed
  then show ?thesis by (simp add: onMessage_def)
next
  case (Parsed data)
  then show ?thesis using onPrompt_maps [of env ws data up s]
    by (cases "get_prop data ''token''") (simp_all add: onMessage_def emit_def)
qed

lemma spawn_maps:
  "sessionIds (spawn ws r) = sessionIds (fst r)" "tokenVerified (spawn ws r) = tokenVerified (fst r)"
  "log (spawn ws r) = log (fst r)"
  by (cases r; cases "snd r"; simp)+

lemma settle_maps:
  "sessionIds (settle ws i r) = sessionIds (fst r)"
  "tokenVerified (settle ws i r) = tokenVerified (fst r)"
  "log (settle ws i r) = log (fst r)"
  by (cases r; cases "snd r"; simp)+

subsection \<open>The verified flag\<close>

lemma step_keeps_verified:
  assumes "tokenVerified s ws = Some True" and "e \<noteq> Open ws" and "e \<noteq> Close ws"
  shows "tokenVerified (step env e s) ws = Some True"
proof (cases e)
  case (Open ws')
  then show ?thesis using assms by (auto simp add: onOpen_def checkWSAuth_def send_def emit_def)
next
  case (Message ws' raw up)
  then show ?thesis using assms onMessage_maps [of env ws' raw up s]
    by (simp add: spawn_maps)
next
  case (Resume ws' i)
  then show ?thesis using assms resume_keeps_verified [of s ws ws' "pending s ws' ! i"]
    by (simp add: settle_maps)
next
  case (Close ws')
  then show ?thesis using assms by (auto simp add: onClose_def)
qed

lemma run_keeps_verified:
  "tokenVerified s ws = Some True \<Longrightarrow> \<forall>e \<in> set sched. e \<noteq> Open ws \<and> e \<noteq> Close ws \<Longrightarrow>
   tokenVerified (run env sched s) ws = Some True"
  by (induction sched arbitrary: s) (simp_all add: step_keeps_verified)

subsection \<open>The authentication gate as an invariant\<close>

lemma verified_sent_append:
  "verified_sent (l @ l') = (verified_sent l \<or> verified_sent l')"
  by (induction l rule: verified_sent.induct) simp_all

lemma gated_append:
  "gated (l @ l') = (gated l \<and> (verified_sent l \<or> gated l'))"
  by (induction l rule: gated.induct) simp_all

lemma query_calls_append:
  "query_calls (l @ l') = query_calls l @ query_calls l'"
  by (induction l rule: query_calls.induct) simp_all

lemma query_calls_sends [simp]: "query_calls (map Send l) = []"
  by (induction l) simp_all

lemma admitted_view: "view ws s = view ws s' \<Longrightarrow> admitted ws s = admitted ws s'"
  by (simp add: view_def admitted_def)

lemma onPrompt_admitted:
  assumes "admitted ws s"
  shows "\<exists>l. log (fst (onPrompt env ws data up s)) ws = log s ws @ l \<and> gated l \<and>
     (\<forall>t. snd (onPrompt env ws data up s) = Some t \<longrightarrow> verified_sent (log s ws))"
proof (cases "tokenVerified s ws = Some True")
  case True
  then have v: "verified_sent (log s ws)" using assms by (simp add: admitted_def)
  show ?thesis
  proof (cases "get_prop data ''prompt''")
    case None
    then show ?thesis using True v by (simp add: onPrompt_def)
  next
    case (Some j)
    then show ?thesis using True v
      by (cases j) (simp_all add: onPrompt_def send_def emit_def)
  qed
next
  case False
  then show ?thesis by (simp add: onPrompt_def send_def emit_def)
qed

lemma onMessage_admitted:
  assumes "admitted ws s"
  shows "\<exists>l. log (fst (onMessage env ws raw up s)) ws = log s ws @ l \<and> gated l \<and>
     (\<forall>t. snd (onMessage env ws raw up s) = Some t \<and> streaming t \<longrightarrow> verified_sent (log s ws))"
proof (cases raw)
  case Malformed
  then show ?thesis by (simp add: onMessage_def)
next
  case (Parsed data)
  show ?thesis
  proof (cases "data = JNull \<or> truthy (get_prop data ''token'')")
    case True
    then show ?thesis using Parsed
      by (cases "get_prop data ''token''") (auto simp add: onMessage_def emit_def)
  next
    case False
    then have "onMessage env ws raw up s = onPrompt env ws data up s"
      using Parsed by (cases "get_prop data ''token''") (simp_all add: onMessage_def)
    then show ?thesis using onPrompt_admitted [OF assms, of env data up] by auto
  qed
qed

lemma onPrompt_pending: "pending (fst (onPrompt env ws data up s)) = pending s"
proof (cases "get_prop data ''prompt''")
  case None
  then show ?thesis by (simp add: onPrompt_def send_def emit_def)
next
  case (Some j)
  then show ?thesis by (cases j) (simp_all add: onPrompt_def send_def emit_def)
qed

lemma onMessage_pending: "pending (fst (onMessage env ws raw up s)) = pending s"
proof (cases raw)
  case Malformed
  then show ?thesis by (simp add: onMessage_def)
next
  case (Parsed data)
  then show ?thesis using onPrompt_pending [of env ws data up s]
    by (cases "get_prop data ''token''") (simp_all add: onMessage_def emit_def)
qed

lemma admitted_grow:
  assumes a: "admitted ws s"
    and l: "log s' ws = log s ws @ l" and g: "verified_sent (log s ws) \<or> gated l"
    and v: "tokenVerified s' ws = Some True \<or> (\<exists>t \<in> set (pending s' ws). streaming t)
            \<Longrightarrow> verified_sent (log s ws @ l)"
  shows "admitted ws s'"
  using a l g v by (auto simp add: admitted_def gated_append)

lemma step_admitted_own:
  assumes a: "admitted ws s" and c: "conn_of e = ws"
  shows "admitted ws (step env e s)"
proof (cases e)
  case (Open ws')
  then have w: "ws' = ws" using c by simp
  have "log (step env e s) ws = log s ws @ [Send Ready]"
    and "tokenVerified (step env e s) ws = Some False"
    and "pending (step env e s) ws = pending s ws"
    using Open w by (simp_all add: onOpen_def checkWSAuth_def send_def emit_def)
  then show ?thesis using a by (auto simp add: admitted_def gated_append verified_sent_append)
next
  case (Close ws')
  then have w: "ws' = ws" using c by simp
  have "log (step env e s) ws = log s ws" and "tokenVerified (step env e s) ws = None"
    and "pending (step env e s) ws = pending s ws"
    using Close w by (simp_all add: onClose_def)
  then show ?thesis using a by (auto simp add: admitted_def)
next
  case (Message ws' raw up)
  then have w: "ws' = ws" using c by simp
  obtain s1 r where om: "onMessage env ws raw up s = (s1, r)" by force
  obtain l where l: "log s1 ws = log s ws @ l" and g: "gated l"
    and t: "\<forall>t. r = Some t \<and> streaming t \<longrightarrow> verified_sent (log s ws)"
    using onMessage_admitted [OF a, of env raw up] om by auto
  have tv: "tokenVerified s1 = tokenVerified s"
    using onMessage_maps [of env ws raw up s] om by simp
  have st: "step env e s = spawn ws (s1, r)" using Message w om by simp
  have p: "set (pending (spawn ws (s1, r)) ws) \<subseteq> set (pending s ws) \<union> set_option r"
  proof -
    have "pending s1 ws = pending s ws"
      using onMessage_pending [of env ws raw up s] om by simp
    then show ?thesis by (cases r) auto
  qed
  show ?thesis
  proof (rule admitted_grow [OF a, of _ l])
    show "log (step env e s) ws = log s ws @ l" using st l by (simp add: spawn_maps)
    show "verified_sent (log s ws) \<or> gated l" using g by simp
    assume "tokenVerified (step env e s) ws = Some True \<or>
            (\<exists>t \<in> set (pending (step env e s) ws). streaming t)"
    then have "verified_sent (log s ws)"
      using st tv p t a by (auto simp add: spawn_maps admitted_def)
    then show "verified_sent (log s ws @ l)" by (simp add: verified_sent_append)
  qed
next
  case (Resume ws' i)
  then have w: "ws' = ws" using c by simp
  show ?thesis
  proof (cases "i < length (pending s ws)")
    case False
    then show ?thesis using Resume w a by simp
  next
    case True
    let ?t = "pending s ws ! i"
    obtain s1 r where rs: "resume ws ?t s = (s1, r)" by force
    have st: "step env e s = settle ws i (s1, r)" using Resume w True rs by simp
    have mem: "?t \<in> set (pending s ws)" using True by simp
    have ps: "pending s1 = pending s" using resume_effect [of ws ?t s] rs by auto
    have p: "set (pending (settle ws i (s1, r)) ws) \<subseteq> set (pending s ws) \<union> set_option r"
    proof (cases r)
      case None
      then show ?thesis using ps by (auto dest: in_set_takeD in_set_dropD)
    next
      case (Some t')
      then show ?thesis using ps set_update_subset_insert [of "pending s ws" i t'] by auto
    qed
    show ?thesis
    proof (cases "streaming ?t")
      case True
      then have vs: "verified_sent (log s ws)" using a mem by (auto simp add: admitted_def)
      obtain l where l: "log s1 ws = log s ws @ map Send l"
        and tv: "tokenVerified s1 = tokenVerified s"
        using resume_stream_shape [OF True, of ws s] rs by auto
      show ?thesis
      proof (rule admitted_grow [OF a, of _ "map Send l"])
        show "log (step env e s) ws = log s ws @ map Send l" using st l by (simp add: settle_maps)
        show "verified_sent (log s ws) \<or> gated (map Send l)" using vs by simp
        show "verified_sent (log s ws @ map Send l)" using vs by (simp add: verified_sent_append)
      qed
    next
      case False
      then obtain v where t: "?t = AwaitVerify v" by (cases ?t) simp_all
      have l: "log s1 ws = log s ws @ map Send (task_wire (AwaitVerify v))"
        and tv: "tokenVerified s1 ws = (if v = None then tokenVerified s ws else Some True)"
        and r: "r = None"
        using resume_verify_shape [of ws v s] rs t by simp_all
      show ?thesis
      proof (rule admitted_grow [OF a, of _ "map Send (task_wire (AwaitVerify v))"])
        show "log (step env e s) ws = log s ws @ map Send (task_wire (AwaitVerify v))"
          using st l by (simp add: settle_maps)
        show "verified_sent (log s ws) \<or> gated (map Send (task_wire (AwaitVerify v)))"
          by (cases v) simp_all
        assume h: "tokenVerified (step env e s) ws = Some True \<or>
            (\<exists>t \<in> set (pending (step env e s) ws). streaming t)"
        show "verified_sent (log s ws @ map Send (task_wire (AwaitVerify v)))"
        proof (cases v)
          case (Some res)
          then show ?thesis by (simp add: verified_sent_append)
        next
          case None
          then have "tokenVerified s ws = Some True \<or> (\<exists>t \<in> set (pending s ws). streaming t)"
            using h st tv p r by (auto simp add: settle_maps)
          then show ?thesis using a by (simp add: admitted_def verified_sent_append)
        qed
      qed
    qed
  qed
qed

lemma step_admitted: "admitted ws s \<Longrightarrow> admitted ws (step env e s)"
proof (cases "conn_of e = ws")
  case True
  assume "admitted ws s"
  then show ?thesis using True by (rule step_admitted_own)
next
  case False
  assume "admitted ws s"
  then show ?thesis using step_frame [OF False, of env s] admitted_view by blast
qed

lemma run_admitted: "admitted ws s \<Longrightarrow> admitted ws (run env sched s)"
  by (induction sched arbitrary: s) (simp_all add: step_admitted)

lemma initial_admitted: "admitted ws initial"
  by (simp add: admitted_def initial_def)

lemma onMessage_unverified:
  assumes "tokenVerified s ws \<noteq> Some True"
  shows "query_calls (log (fst (onMessage env ws raw up s)) ws) = query_calls (log s ws)"
proof (cases raw)
  case Malformed
  then show ?thesis by (simp add: onMessage_def)
next
  case (Parsed data)
  have "query_calls (log (fst (onPrompt env ws data up s)) ws) = query_calls (log s ws)"
    using assms by (simp add: onPrompt_def send_def emit_def query_calls_append)
  then show ?thesis using Parsed
    by (cases "get_prop data ''token''")
       (simp_all add: onMessage_def emit_def query_calls_append)
qed

lemma resume_no_query:
  "query_calls (log (fst (resume ws t s)) ws) = query_calls (log s ws)"
proof (cases "streaming t")
  case True
  then show ?thesis using resume_stream_shape [OF True, of ws s]
    by (auto simp add: query_calls_append)
next
  case False
  then obtain v where "t = AwaitVerify v" by (cases t) simp_all
  then show ?thesis using resume_verify_shape(1) [of ws v s]
    by (simp add: query_calls_append)
qed

lemma step_unverified:
  assumes "tokenVerified s ws \<noteq> Some True"
  shows "query_calls (log (step env e s) ws) = query_calls (log s ws)"
proof (cases "conn_of e = ws")
  case False
  then show ?thesis using step_frame [OF False, of env s] by (simp add: view_def)
next
  case True
  show ?thesis
  proof (cases e)
    case (Open ws')
    then show ?thesis using True
      by (simp add: onOpen_def checkWSAuth_def send_def emit_def query_calls_append)
  next
    case (Message ws' raw up)
    then show ?thesis using True onMessage_unverified [OF assms, of env raw up]
      by (simp add: spawn_maps)
  next
    case (Resume ws' i)
    then show ?thesis using True resume_no_query [of ws "pending s ws ! i" s]
      by (simp add: settle_maps)
  next
    case (Close ws')
    then show ?thesis using True by (simp add: onClose_def)
  qed
qed

subsection \<open>Turns run one after the other\<close>

lemma turn_view:
  assumes auth: "tokenVerified s ws = Some True"
    and tok: "\<not> truthy (get_prop data ''token'')"
    and p: "get_prop data ''prompt'' = Some (JStr prompt)"
    and ne: "prompt \<noteq> []" and len: "length prompt \<le> 100000"
    and key: "env_set (ANTHROPIC_API_KEY env) \<or> env_set (CLAUDE_CODE_OAUTH_TOKEN env)"
    and q: "query up = (ms, e)"
    and sched: "events_of ws sched =
      Message ws (Parsed data) up #
      replicate (length ms + length (stream_text ms) + 1) (Resume ws (length (pending s ws)))"
  shows "view ws (run env sched s) =
     (stored (captured ms) (sessionIds s ws), Some True, pending s ws,
      log s ws @ QueryCall prompt (resume_option (sessionIds s ws)) #
        map Send (map Text (stream_text ms) @ [closing e]))"
proof -
  let ?t = "AwaitNext ms e"
  let ?s0 = "s\<lparr>pending := (pending s)(ws := pending s ws @ [?t]),
              log := (log s)(ws := log s ws @ [QueryCall prompt (resume_option (sessionIds s ws))])\<rparr>"
  have st: "step env (Message ws (Parsed data) up) s = ?s0"
    using prompt_step [OF tok auth p ne len key, of up] q by simp
  have pd: "pending ?s0 ws = pending s ws @ ?t # []" by simp
  have "run env (replicate (task_steps ?t) (Resume ws (length (pending s ws)))) ?s0 =
        (effect ws ?t ?s0)\<lparr>pending := (pending ?s0)(ws := pending s ws @ [])\<rparr>"
    using pd by (rule drain)
  then have "run env (events_of ws sched) s =
        (effect ws ?t ?s0)\<lparr>pending := (pending ?s0)(ws := pending s ws @ [])\<rparr>"
    using sched st by simp
  then have "view ws (run env sched s) =
        view ws ((effect ws ?t ?s0)\<lparr>pending := (pending ?s0)(ws := pending s ws @ [])\<rparr>)"
    using view_run_events_of [of ws env sched s] by simp
  then show ?thesis using auth by (simp add: view_def effect_def)
qed

lemma mid_stream_view:
  "tokenVerified mid_stream 0 = Some True" "sessionIds mid_stream 0 = Some []"
  "pending mid_stream 0 = [AwaitDelay ''b'' [] [] Completes]"
  "log mid_stream 0 = log signed_in 0 @ [QueryCall ''one'' None, Send (Text CHR ''a'')]"
  by (simp_all add: mid_stream_def onMessage_def onPrompt_def signed_in_view prompt_message_def
      env_ok_def env_set_def send_def emit_def resume_option_def answers_def capture_def)

lemma captured_nonempty: "captured ms = Some sid \<Longrightarrow> sid \<noteq> []"
proof (induction ms)
  case Nil
  then show ?case by simp
next
  case (Cons m ms)
  show ?case
  proof (cases "captured ms")
    case None
    then have "init_session m = Some sid" using Cons.prems by simp
    then show ?thesis
      by (cases m rule: init_session.cases) (simp_all split: if_splits)
  next
    case (Some x)
    then show ?thesis using Cons by simp
  qed
qed

lemma resume_option_stored:
  "resume_option (stored (captured ms) cur) = stored (captured ms) (resume_option cur)"
proof (cases "captured ms")
  case None
  then show ?thesis by simp
next
  case (Some sid)
  then show ?thesis using captured_nonempty [OF Some] by (simp add: resume_option_def)
qed

lemma events_of_turn: "events_of ws (turn_events ws t) = turn_events ws t"
  by (cases t) (simp add: events_of_def)

lemma turns_run:
  assumes key: "env_set (ANTHROPIC_API_KEY env) \<or> env_set (CLAUDE_CODE_OAUTH_TOKEN env)"
  shows "tokenVerified s ws = Some True \<Longrightarrow> pending s ws = [] \<Longrightarrow>
    \<forall>t \<in> set turns. fst t \<noteq> [] \<and> length (fst t) \<le> 100000 \<Longrightarrow>
    query_calls (log (run env (concat (map (turn_events ws) turns)) s) ws) =
    query_calls (log s ws) @ handles (resume_option (sessionIds s ws)) turns"
proof (induction turns arbitrary: s)
  case Nil
  then show ?case by simp
next
  case (Cons t turns)
  obtain p ms e where t: "t = (p, ms, e)" by (cases t) auto
  let ?up = "\<lparr>verifyToken = None, query = (ms, e)\<rparr>"
  let ?s1 = "run env (turn_events ws t) s"
  have sched: "events_of ws (turn_events ws t) =
      Message ws (Parsed (prompt_message p)) ?up #
      replicate (length ms + length (stream_text ms) + 1) (Resume ws (length (pending s ws)))"
    using events_of_turn [of ws t] Cons.prems(2) by (simp add: t)
  have v: "view ws ?s1 =
     (stored (captured ms) (sessionIds s ws), Some True, pending s ws,
      log s ws @ QueryCall p (resume_option (sessionIds s ws)) #
        map Send (map Text (stream_text ms) @ [closing e]))"
  proof (rule turn_view [OF Cons.prems(1) _ _ _ _ key _ sched])
    show "\<not> truthy (get_prop (prompt_message p) ''token'')" by (simp add: prompt_message_def)
    show "get_prop (prompt_message p) ''prompt'' = Some (JStr p)" by (simp add: prompt_message_def)
    show "p \<noteq> []" "length p \<le> 100000" using Cons.prems(3) t by simp_all
    show "query ?up = (ms, e)" by simp
  qed
  then have a: "tokenVerified ?s1 ws = Some True" and b: "pending ?s1 ws = []"
    and c: "sessionIds ?s1 ws = stored (captured ms) (sessionIds s ws)"
    and d: "log ?s1 ws = log s ws @ QueryCall p (resume_option (sessionIds s ws)) #
        map Send (map Text (stream_text ms) @ [closing e])"
    using Cons.prems(2) by (simp_all add: view_def)
  have "query_calls (log (run env (concat (map (turn_events ws) turns)) ?s1) ws) =
    query_calls (log ?s1 ws) @ handles (resume_option (sessionIds ?s1 ws)) turns"
    using a b Cons.prems(3) by (intro Cons.IH) simp_all
  moreover have "query_calls (log ?s1 ws) =
      query_calls (log s ws) @ [(p, resume_option (sessionIds s ws))]"
    unfolding d using query_calls_sends [of "map Text (stream_text ms) @ [closing e]"]
    by (simp add: query_calls_append del: query_calls_sends)
  moreover have "run env (concat (map (turn_events ws) (t # turns))) s =
      run env (concat (map (turn_events ws) turns)) ?s1"
    by (simp add: run_append del: turn_events.simps)
  ultimately show ?case using c
    by (simp add: resume_option_stored t del: turn_events.simps)
qed

lemma handles_prompts: "map fst (handles h turns) = map fst turns"
  by (induction h turns rule: handles.induct) simp_all

lemma handles_first: "turns \<noteq> [] \<Longrightarrow> snd (handles h turns ! 0) = h"
  by (cases "(h, turns)" rule: handles.cases) simp_all

lemma handles_next:
  "Suc k < length turns \<Longrightarrow> captured (fst (snd (turns ! k))) = Some sid \<Longrightarrow>
   snd (handles h turns ! Suc k) = Some sid"
proof (induction h turns arbitrary: k rule: handles.induct)
  case (1 h)
  then show ?case by simp
next
  case (2 h p ms e ts)
  show ?case
  proof (cases k)
    case 0
    then have "captured ms = Some sid" and "ts \<noteq> []" using 2 by auto
    then show ?thesis using 0 handles_first [of ts "stored (captured ms) h"] by simp
  next
    case (Suc j)
    then show ?thesis using 2 by simp
  qed
qed

section \<open>The claims\<close>

subsection \<open>Authentication gate\<close>

text \<open>
  C1. Whatever the schedule of events on the server, started from the state in which
  nothing has happened yet, the log of every socket is gated: no \<^verbatim>\<open>text\<close> and no
  \<^verbatim>\<open>done\<close> message is sent on it before a \<^verbatim>\<open>tokenVerified\<close> message with
  \<^verbatim>\<open>success: true\<close> has been sent on it. And in any state in which the socket's entry
  of \<^verbatim>\<open>tokenVerified\<close> is not \<^verbatim>\<open>true\<close>, no event makes a call of \<^verbatim>\<open>query\<close> for
  that socket.
\<close>

theorem authentication_gate:
  "gated (log (run env sched initial) ws) \<and>
   (tokenVerified s ws \<noteq> Some True \<longrightarrow>
      query_calls (log (step env e s) ws) = query_calls (log s ws))"
proof -
  have "admitted ws (run env sched initial)"
    using initial_admitted by (rule run_admitted)
  then show ?thesis using step_unverified [of s ws env e] by (simp add: admitted_def)
qed

text \<open>
  A socket that opens and sends a prompt without having signed in: the prompt is answered
  with \<^verbatim>\<open>Not authenticated.\<close> and \<^verbatim>\<open>query\<close> is not called.
\<close>

theorem authentication_gate_witness:
  "gated (log (run env_ok
       [Open 0, Message 0 (Parsed (prompt_message ''hi''))
          (answers [AssistantMessage (Some [TextBlock ''x''])] Completes),
        Resume 0 0] initial) 0) \<and>
   tokenVerified (onOpen 0 initial) 0 \<noteq> Some True \<and>
   query_calls (log (step env_ok (Message 0 (Parsed (prompt_message ''hi''))
        (answers [AssistantMessage (Some [TextBlock ''x''])] Completes)) (onOpen 0 initial)) 0) =
   query_calls (log (onOpen 0 initial) 0) \<and>
   log (run env_ok
       [Open 0, Message 0 (Parsed (prompt_message ''hi''))
          (answers [AssistantMessage (Some [TextBlock ''x''])] Completes),
        Resume 0 0] initial) 0 = [Send Ready, Send (Error ''Not authenticated.'')]"
proof -
  have a: "tokenVerified (onOpen 0 initial) 0 \<noteq> Some True"
    by (simp add: onOpen_def initial_def checkWSAuth_def send_def emit_def)
  have b: "log (run env_ok
       [Open 0, Message 0 (Parsed (prompt_message ''hi''))
          (answers [AssistantMessage (Some [TextBlock ''x''])] Completes),
        Resume 0 0] initial) 0 = [Send Ready, Send (Error ''Not authenticated.'')]"
    by (simp add: onOpen_def initial_def checkWSAuth_def send_def emit_def onMessage_def
        onPrompt_def prompt_message_def)
  show ?thesis
    using authentication_gate [of env_ok
       "[Open 0, Message 0 (Parsed (prompt_message ''hi''))
          (answers [AssistantMessage (Some [TextBlock ''x''])] Completes),
        Resume 0 0]" 0 "onOpen 0 initial" "Message 0 (Parsed (prompt_message ''hi''))
        (answers [AssistantMessage (Some [TextBlock ''x''])] Completes)"] a b
    by blast
qed

subsection \<open>Overlapping prompts\<close>

text \<open>
  The handler keeps no record of an invocation being in flight. Here a second prompt
  arrives after the first character of the first response was sent: it is not rejected,
  \<^verbatim>\<open>query\<close> is called a second time and two invocations are suspended on the socket.
\<close>

theorem overlapping_prompts_counterexample:
  "pending (run env_ok
      [Message 0 (Parsed (prompt_message ''one''))
         (answers [AssistantMessage (Some [TextBlock ''ab''])] Completes),
       Resume 0 0,
       Message 0 (Parsed (prompt_message ''two'')) (answers [] Completes)] signed_in) 0 =
     [AwaitDelay ''b'' [] [] Completes, AwaitNext [] Completes] \<and>
   log (run env_ok
      [Message 0 (Parsed (prompt_message ''one''))
         (answers [AssistantMessage (Some [TextBlock ''ab''])] Completes),
       Resume 0 0,
       Message 0 (Parsed (prompt_message ''two'')) (answers [] Completes)] signed_in) 0 =
     log signed_in 0 @
     [QueryCall ''one'' None, Send (Text CHR ''a''), QueryCall ''two'' None]"
  by (simp add: onMessage_def onPrompt_def signed_in_view prompt_message_def env_ok_def
      env_set_def send_def emit_def resume_option_def answers_def capture_def)

text \<open>
  C2, as the code has it. A prompt that arrives on a verified socket while an earlier
  invocation of that socket is still relaying its response is treated as on an idle
  socket: when it passes the checks (a non-empty string of at most 100000 units, an agent
  credential configured) it calls \<^verbatim>\<open>query\<close>, with the session id stored at that
  moment, and a further invocation is suspended next to the earlier ones, which are left
  as they were.
\<close>

theorem overlapping_prompt_starts_invocation:
  assumes "tokenVerified s ws = Some True"
    and "\<not> truthy (get_prop data ''token'')"
    and "get_prop data ''prompt'' = Some (JStr prompt)"
    and "prompt \<noteq> []" and "length prompt \<le> 100000"
    and "env_set (ANTHROPIC_API_KEY env) \<or> env_set (CLAUDE_CODE_OAUTH_TOKEN env)"
    and "t \<in> set (pending s ws)" and "streaming t"
  shows "step env (Message ws (Parsed data) up) s =
   s\<lparr>pending := (pending s)(ws := pending s ws @ [AwaitNext (fst (query up)) (snd (query up))]),
     log := (log s)(ws := log s ws @ [QueryCall prompt (resume_option (sessionIds s ws))])\<rparr>"
  using assms(2,1,3,4,5,6) by (rule prompt_step)

text \<open>
  The second prompt of the example above, delivered to the state in which the first
  response is half relayed.
\<close>

theorem overlapping_prompt_starts_invocation_witness:
  "tokenVerified mid_stream 0 = Some True \<and>
   AwaitDelay ''b'' [] [] Completes \<in> set (pending mid_stream 0) \<and>
   streaming (AwaitDelay ''b'' [] [] Completes) \<and>
   pending (step env_ok (Message 0 (Parsed (prompt_message ''two''))
      (answers [OtherMessage] Completes)) mid_stream) 0 =
     [AwaitDelay ''b'' [] [] Completes, AwaitNext [OtherMessage] Completes] \<and>
   log (step env_ok (Message 0 (Parsed (prompt_message ''two''))
      (answers [OtherMessage] Completes)) mid_stream) 0 =
     log mid_stream 0 @ [QueryCall ''two'' None]"
proof -
  have a: "tokenVerified mid_stream 0 = Some True" by (simp add: mid_stream_view)
  have b: "\<not> truthy (get_prop (prompt_message ''two'') ''token'')"
    by (simp add: prompt_message_def)
  have c: "get_prop (prompt_message ''two'') ''prompt'' = Some (JStr ''two'')"
    by (simp add: prompt_message_def)
  have d: "''two'' \<noteq> []" "length ''two'' \<le> 100000" by simp_all
  have m: "AwaitDelay ''b'' [] [] Completes \<in> set (pending mid_stream 0)"
    by (simp add: mid_stream_view)
  have st: "streaming (AwaitDelay ''b'' [] [] Completes)" by simp
  show ?thesis
    using overlapping_prompt_starts_invocation [OF a b c d env_ok_key m st,
        of "answers [OtherMessage] Completes"] a m st
    by (simp add: mid_stream_view resume_option_def answers_def)
qed

subsection \<open>The stored session id after a failed turn\<close>

text \<open>
  The session id is stored when the init message is consumed, not when the turn ends.
  Here the response yields its init message and then raises: the turn ends with the error
  message, and the socket's entry of \<^verbatim>\<open>sessionIds\<close>, empty before, holds the id of the
  failed turn.
\<close>

theorem failed_turn_counterexample:
  "sessionIds signed_in 0 = Some [] \<and>
   sessionIds (run env_ok
     [Message 0 (Parsed (prompt_message ''hi''))
        (answers [SystemMessage ''init'' (Some ''s1'')] Raises),
      Resume 0 0, Resume 0 0] signed_in) 0 = Some ''s1'' \<and>
   log (run env_ok
     [Message 0 (Parsed (prompt_message ''hi''))
        (answers [SystemMessage ''init'' (Some ''s1'')] Raises),
      Resume 0 0, Resume 0 0] signed_in) 0 =
   log signed_in 0 @ [QueryCall ''hi'' None, Send (Error ''Failed to process query'')]"
  by (simp add: onMessage_def onPrompt_def signed_in_view prompt_message_def env_ok_def
      env_set_def send_def emit_def resume_option_def answers_def capture_def)

text \<open>
  C3, as the code has it. Take a turn on a verified socket whose suspended invocation is
  the only one of that socket to be resumed until it ends, whatever happens on other
  sockets meanwhile, and whether the response completes or raises after the messages
  \<open>ms\<close>. If no init message of \<open>ms\<close> carries a non-empty session id, the socket's
  entry of \<^verbatim>\<open>sessionIds\<close> is what it was before the turn; otherwise it is the session
  id of the last such message. The socket stays verified and the invocations suspended on
  it are those that were suspended before, so that it can take a further prompt. The id
  is stored as soon as the init message is consumed, not at the end of the turn: in any
  state, the resumption at which an invocation takes an init message with a non-empty
  session id from its response puts that id into the socket's entry of \<^verbatim>\<open>sessionIds\<close>
  at once, while the invocation stays suspended with the rest of the response ahead.
\<close>

theorem session_id_stored_at_init:
  assumes "tokenVerified s ws = Some True"
    and "\<not> truthy (get_prop data ''token'')"
    and "get_prop data ''prompt'' = Some (JStr prompt)"
    and "prompt \<noteq> []" and "length prompt \<le> 100000"
    and "env_set (ANTHROPIC_API_KEY env) \<or> env_set (CLAUDE_CODE_OAUTH_TOKEN env)"
    and "query up = (ms, e)"
    and "events_of ws sched =
      Message ws (Parsed data) up #
      replicate (length ms + length (stream_text ms) + 1) (Resume ws (length (pending s ws)))"
  shows "(captured ms = None \<longrightarrow> sessionIds (run env sched s) ws = sessionIds s ws) \<and>
         (\<forall>sid. captured ms = Some sid \<longrightarrow> sessionIds (run env sched s) ws = Some sid) \<and>
         tokenVerified (run env sched s) ws = Some True \<and>
         pending (run env sched s) ws = pending s ws \<and>
         (\<forall>s' i m ms' e' sid.
            i < length (pending s' ws) \<and> pending s' ws ! i = AwaitNext (m # ms') e' \<and>
            init_session m = Some sid \<longrightarrow>
            sessionIds (step env (Resume ws i) s') ws = Some sid \<and>
            pending (step env (Resume ws i) s') ws ! i = AwaitNext ms' e')"
proof -
  have v: "view ws (run env sched s) =
     (stored (captured ms) (sessionIds s ws), Some True, pending s ws,
      log s ws @ QueryCall prompt (resume_option (sessionIds s ws)) #
        map Send (map Text (stream_text ms) @ [closing e]))"
    using assms by (rule turn_view)
  have c1: "captured ms = None \<longrightarrow> sessionIds (run env sched s) ws = sessionIds s ws"
    using v by (simp add: view_def)
  have c2: "\<forall>sid. captured ms = Some sid \<longrightarrow> sessionIds (run env sched s) ws = Some sid"
    using v by (simp add: view_def)
  have c3: "tokenVerified (run env sched s) ws = Some True"
    using v by (simp add: view_def)
  have c4: "pending (run env sched s) ws = pending s ws"
    using v by (simp add: view_def)
  have c5: "\<forall>s' i m ms' e' sid.
            i < length (pending s' ws) \<and> pending s' ws ! i = AwaitNext (m # ms') e' \<and>
            init_session m = Some sid \<longrightarrow>
            sessionIds (step env (Resume ws i) s') ws = Some sid \<and>
            pending (step env (Resume ws i) s') ws ! i = AwaitNext ms' e'"
  proof (intro allI impI)
    fix s' :: server and i m ms' e' sid
    assume "i < length (pending s' ws) \<and> pending s' ws ! i = AwaitNext (m # ms') e' \<and>
            init_session m = Some sid"
    then show "sessionIds (step env (Resume ws i) s') ws = Some sid \<and>
            pending (step env (Resume ws i) s') ws ! i = AwaitNext ms' e'"
      using init_stored_at_once [of i s' ws m ms' e' sid env] by simp
  qed
  show ?thesis by (intro conjI) (rule c1, rule c2, rule c3, rule c4, rule c5)
qed

text \<open>
  A response that yields its init message and one other message before it raises: the
  id is stored at the first resumption, with the rest of the response still to come, and
  is still stored when the turn has ended with the error.
\<close>

theorem session_id_stored_at_init_witness:
  "tokenVerified signed_in 0 = Some True \<and>
   \<not> truthy (get_prop (prompt_message ''hi'') ''token'') \<and>
   get_prop (prompt_message ''hi'') ''prompt'' = Some (JStr ''hi'') \<and>
   captured [SystemMessage ''init'' (Some ''s1''), OtherMessage] = Some ''s1'' \<and>
   sessionIds (run env_ok
     [Message 0 (Parsed (prompt_message ''hi''))
        (answers [SystemMessage ''init'' (Some ''s1''), OtherMessage] Raises),
      Resume 0 0, Resume 0 0, Resume 0 0] signed_in) 0 = Some ''s1'' \<and>
   pending (run env_ok
     [Message 0 (Parsed (prompt_message ''hi''))
        (answers [SystemMessage ''init'' (Some ''s1''), OtherMessage] Raises),
      Resume 0 0, Resume 0 0, Resume 0 0] signed_in) 0 = [] \<and>
   pending (step env_ok (Message 0 (Parsed (prompt_message ''hi''))
        (answers [SystemMessage ''init'' (Some ''s1''), OtherMessage] Raises)) signed_in) 0 ! 0 =
     AwaitNext [SystemMessage ''init'' (Some ''s1''), OtherMessage] Raises \<and>
   init_session (SystemMessage ''init'' (Some ''s1'')) = Some ''s1'' \<and>
   sessionIds (step env_ok (Resume 0 0)
     (step env_ok (Message 0 (Parsed (prompt_message ''hi''))
        (answers [SystemMessage ''init'' (Some ''s1''), OtherMessage] Raises)) signed_in)) 0 =
     Some ''s1'' \<and>
   pending (step env_ok (Resume 0 0)
     (step env_ok (Message 0 (Parsed (prompt_message ''hi''))
        (answers [SystemMessage ''init'' (Some ''s1''), OtherMessage] Raises)) signed_in)) 0 ! 0 =
     AwaitNext [OtherMessage] Raises"
proof -
  let ?ms = "[SystemMessage ''init'' (Some ''s1''), OtherMessage]"
  let ?up = "answers ?ms Raises"
  let ?s1 = "step env_ok (Message 0 (Parsed (prompt_message ''hi'')) ?up) signed_in"
  have a: "tokenVerified signed_in 0 = Some True" by (simp add: signed_in_view)
  have b: "\<not> truthy (get_prop (prompt_message ''hi'') ''token'')"
    by (simp add: prompt_message_def)
  have c: "get_prop (prompt_message ''hi'') ''prompt'' = Some (JStr ''hi'')"
    by (simp add: prompt_message_def)
  have d: "''hi'' \<noteq> []" "length ''hi'' \<le> 100000" by simp_all
  have q: "query ?up = (?ms, Raises)" by (simp add: answers_def)
  have e: "events_of 0
     [Message 0 (Parsed (prompt_message ''hi'')) ?up, Resume 0 0, Resume 0 0, Resume 0 0] =
     Message 0 (Parsed (prompt_message ''hi'')) ?up #
     replicate (length ?ms + length (stream_text ?ms) + 1)
       (Resume 0 (length (pending signed_in 0)))"
    by (simp add: events_of_def signed_in_view numeral_eq_Suc)
  have f: "captured ?ms = Some ''s1''" by simp
  have s1: "?s1 = signed_in\<lparr>pending := (pending signed_in)(0 := [AwaitNext ?ms Raises]),
      log := (log signed_in)(0 := log signed_in 0 @ [QueryCall ''hi'' None])\<rparr>"
    using prompt_step [OF b a c d env_ok_key, of ?up]
    by (simp add: answers_def signed_in_view resume_option_def)
  have g: "0 < length (pending ?s1 0)" "pending ?s1 0 ! 0 = AwaitNext ?ms Raises"
    unfolding s1 by simp_all
  have h: "init_session (SystemMessage ''init'' (Some ''s1'')) = Some ''s1''" by simp
  note t = session_id_stored_at_init [OF a b c d env_ok_key q e]
  note t2 = t [THEN conjunct2, THEN conjunct1, rule_format, OF f]
  note t4 = t [THEN conjunct2, THEN conjunct2, THEN conjunct2, THEN conjunct1]
  note t5 = t [THEN conjunct2, THEN conjunct2, THEN conjunct2, THEN conjunct2, rule_format,
      of 0 ?s1 "SystemMessage ''init'' (Some ''s1'')" "[OtherMessage]" Raises "''s1''"]
  have p: "pending (run env_ok
     [Message 0 (Parsed (prompt_message ''hi'')) ?up, Resume 0 0, Resume 0 0, Resume 0 0]
       signed_in) 0 = []"
    using t4 by (simp only: signed_in_view)
  have m: "sessionIds (step env_ok (Resume 0 0) ?s1) 0 = Some ''s1'' \<and>
     pending (step env_ok (Resume 0 0) ?s1) 0 ! 0 = AwaitNext [OtherMessage] Raises"
    using g h by (intro t5 conjI)
  show ?thesis
    by (intro conjI) (rule a, rule b, rule c, rule f, rule t2, rule p, rule g(2), rule h,
        rule m [THEN conjunct1], rule m [THEN conjunct2])
qed

subsection \<open>The resume option of successive turns\<close>

text \<open>
  C4. A socket opens, signs in, and then runs a sequence of turns one after the other,
  each prompt valid and each turn taken to its \<^verbatim>\<open>done\<close> or \<^verbatim>\<open>error\<close> before the
  next prompt is sent, while other sockets do what they like. Then \<^verbatim>\<open>query\<close> is called
  once for each prompt, in order; the first call has no \<^verbatim>\<open>resume\<close> option; and when
  the response of turn \<open>k\<close> has an init message with a non-empty session id, the call for
  turn \<open>k + 1\<close> has the session id of the last such message as its \<^verbatim>\<open>resume\<close> option.
\<close>

theorem serial_prompts_resume:
  assumes key: "env_set (ANTHROPIC_API_KEY env) \<or> env_set (CLAUDE_CODE_OAUTH_TOKEN env)"
    and valid: "\<forall>t \<in> set turns. fst t \<noteq> [] \<and> length (fst t) \<le> 100000"
    and cred: "get_prop cred ''token'' = Some tok" "truthy (Some tok)"
    and ok: "verifyToken upc = Some r"
    and sched: "events_of ws sched =
      Open ws # Message ws (Parsed cred) upc # Resume ws 0 #
      concat (map (turn_events ws) turns)"
  shows "map fst (query_calls (log (run env sched initial) ws)) = map fst turns \<and>
         (turns \<noteq> [] \<longrightarrow> snd (query_calls (log (run env sched initial) ws) ! 0) = None) \<and>
         (\<forall>k sid. Suc k < length turns \<and> captured (fst (snd (turns ! k))) = Some sid \<longrightarrow>
            snd (query_calls (log (run env sched initial) ws) ! Suc k) = Some sid)"
proof -
  let ?s0 = "onOpen ws initial"
  let ?ts = "concat (map (turn_events ws) turns)"
  define s3 where "s3 = run env [Message ws (Parsed cred) upc, Resume ws 0] ?s0"
  have o: "sessionIds ?s0 ws = Some []" "tokenVerified ?s0 ws = Some False"
    "pending ?s0 ws = []" "log ?s0 ws = [Send Ready]"
    by (simp_all add: onOpen_def initial_def checkWSAuth_def send_def emit_def)
  have "events_of ws [Message ws (Parsed cred) upc, Resume ws 0] =
        [Message ws (Parsed cred) upc, Resume ws (length (pending ?s0 ws))]"
    by (simp add: events_of_def o)
  from credential_view [OF cred this, of env]
  have v3: "view ws s3 = (Some [], Some True, [],
      [Send Ready, VerifyCall tok, Send (TokenVerified True r)])"
    unfolding s3_def using ok by (simp add: o)
  then have a: "tokenVerified s3 ws = Some True" and b: "pending s3 ws = []"
    and c: "sessionIds s3 ws = Some []"
    and d: "query_calls (log s3 ws) = []"
    by (simp_all add: view_def)
  have "query_calls (log (run env ?ts s3) ws) =
        query_calls (log s3 ws) @ handles (resume_option (sessionIds s3 ws)) turns"
    using key a b valid by (rule turns_run)
  then have q: "query_calls (log (run env ?ts s3) ws) = handles None turns"
    by (simp add: c d resume_option_def)
  have "run env (events_of ws sched) initial = run env ?ts s3"
    unfolding sched s3_def by simp
  then have "view ws (run env sched initial) = view ws (run env ?ts s3)"
    using view_run_events_of [of ws env sched initial] by simp
  then have "query_calls (log (run env sched initial) ws) = handles None turns"
    using q by (simp add: view_def)
  then show ?thesis
    using handles_prompts [of None turns] handles_first [of turns None]
      handles_next [of _ turns _ None]
    by simp
qed

text \<open>
  Two turns on socket \<open>0\<close>, with another socket opening and closing in between: the
  first response announces the session \<^verbatim>\<open>s1\<close>, which the second call resumes.
\<close>

theorem serial_prompts_resume_witness:
  "events_of 0
     [Open 0, Open 1, Message 0 (Parsed credential) accepts, Resume 0 0,
      Message 0 (Parsed (prompt_message ''one''))
        (answers [SystemMessage ''init'' (Some ''s1''),
                  AssistantMessage (Some [TextBlock ''a''])] Completes),
      Resume 0 0, Resume 0 0, Close 1, Resume 0 0, Resume 0 0,
      Message 0 (Parsed (prompt_message ''two'')) (answers [] Raises),
      Resume 0 0] =
     Open 0 # Message 0 (Parsed credential) accepts # Resume 0 0 #
     concat (map (turn_events 0)
       [(''one'', [SystemMessage ''init'' (Some ''s1''),
                   AssistantMessage (Some [TextBlock ''a''])], Completes),
        (''two'', [], Raises)]) \<and>
   snd (query_calls (log (run env_ok
     [Open 0, Open 1, Message 0 (Parsed credential) accepts, Resume 0 0,
      Message 0 (Parsed (prompt_message ''one''))
        (answers [SystemMessage ''init'' (Some ''s1''),
                  AssistantMessage (Some [TextBlock ''a''])] Completes),
      Resume 0 0, Resume 0 0, Close 1, Resume 0 0, Resume 0 0,
      Message 0 (Parsed (prompt_message ''two'')) (answers [] Raises),
      Resume 0 0] initial) 0) ! 0) = None \<and>
   snd (query_calls (log (run env_ok
     [Open 0, Open 1, Message 0 (Parsed credential) accepts, Resume 0 0,
      Message 0 (Parsed (prompt_message ''one''))
        (answers [SystemMessage ''init'' (Some ''s1''),
                  AssistantMessage (Some [TextBlock ''a''])] Completes),
      Resume 0 0, Resume 0 0, Close 1, Resume 0 0, Resume 0 0,
      Message 0 (Parsed (prompt_message ''two'')) (answers [] Raises),
      Resume 0 0] initial) 0) ! Suc 0) = Some ''s1''"
proof -
  let ?turns = "[(''one'', [SystemMessage ''init'' (Some ''s1''),
                   AssistantMessage (Some [TextBlock ''a''])], Completes),
        (''two'', [], Raises)]"
  let ?sched = "[Open 0, Open 1, Message 0 (Parsed credential) accepts, Resume 0 0,
      Message 0 (Parsed (prompt_message ''one''))
        (answers [SystemMessage ''init'' (Some ''s1''),
                  AssistantMessage (Some [TextBlock ''a''])] Completes),
      Resume 0 0, Resume 0 0, Close 1, Resume 0 0, Resume 0 0,
      Message 0 (Parsed (prompt_message ''two'')) (answers [] Raises),
      Resume 0 0]"
  have v: "\<forall>t \<in> set ?turns. fst t \<noteq> [] \<and> length (fst t) \<le> 100000" by simp
  have c: "get_prop credential ''token'' = Some (JStr ''jwt'')" "truthy (Some (JStr ''jwt''))"
    by (simp_all add: credential_def)
  have k: "verifyToken accepts = Some (JObj [(''sub'', JStr ''user'')])"
    by (simp add: accepts_def)
  have e: "events_of 0 ?sched =
     Open 0 # Message 0 (Parsed credential) accepts # Resume 0 0 #
     concat (map (turn_events 0) ?turns)"
    by (simp add: events_of_def answers_def numeral_eq_Suc)
  have n: "?turns \<noteq> []" "Suc 0 < length ?turns"
    "captured (fst (snd (?turns ! 0))) = Some ''s1''"
    by simp_all
  show ?thesis
    using serial_prompts_resume [OF env_ok_key v c k e] e n by blast
qed

subsection \<open>Order of the relayed messages\<close>

text \<open>
  C5. Take a turn on a verified socket whose suspended invocation is the only one of that
  socket to be resumed until it ends, whatever happens on other sockets meanwhile. After
  the call of \<^verbatim>\<open>query\<close>, what is sent on the socket is one \<^verbatim>\<open>text\<close> message for each
  character of the text blocks of the assistant messages, in the order in which the
  response yields them, and then a single closing message: \<^verbatim>\<open>done\<close> when the response
  completes, the error \<^verbatim>\<open>Failed to process query\<close> and no \<^verbatim>\<open>done\<close> when it raises.
  Should other invocations of the same socket be resumed in between, their messages fall
  between those of this one, but the order within it is kept: each resumption of a
  relaying invocation sends the next part \<open>l\<close> of what it has left to send (\<open>task_wire\<close>,
  the remaining characters and then the closing message), and it ends exactly when
  nothing is left.
\<close>

theorem relay_keeps_order:
  assumes "tokenVerified s ws = Some True"
    and "\<not> truthy (get_prop data ''token'')"
    and "get_prop data ''prompt'' = Some (JStr prompt)"
    and "prompt \<noteq> []" and "length prompt \<le> 100000"
    and "env_set (ANTHROPIC_API_KEY env) \<or> env_set (CLAUDE_CODE_OAUTH_TOKEN env)"
    and "query up = (ms, e)"
    and "events_of ws sched =
      Message ws (Parsed data) up #
      replicate (length ms + length (stream_text ms) + 1) (Resume ws (length (pending s ws)))"
  shows "(e = Completes \<longrightarrow>
            log (run env sched s) ws =
            log s ws @ QueryCall prompt (resume_option (sessionIds s ws)) #
              map (\<lambda>c. Send (Text c)) (stream_text ms) @ [Send Done]) \<and>
         (e = Raises \<longrightarrow>
            log (run env sched s) ws =
            log s ws @ QueryCall prompt (resume_option (sessionIds s ws)) #
              map (\<lambda>c. Send (Text c)) (stream_text ms) @
              [Send (Error ''Failed to process query'')]) \<and>
         (\<forall>t s'. streaming t \<longrightarrow>
            (\<exists>l. log (fst (resume ws t s')) ws = log s' ws @ map Send l \<and>
                 (case snd (resume ws t s') of
                    None \<Rightarrow> task_wire t = l
                  | Some t' \<Rightarrow> streaming t' \<and> task_wire t = l @ task_wire t')))"
proof -
  have "(e = Completes \<longrightarrow>
            log (run env sched s) ws =
            log s ws @ QueryCall prompt (resume_option (sessionIds s ws)) #
              map (\<lambda>c. Send (Text c)) (stream_text ms) @ [Send Done]) \<and>
         (e = Raises \<longrightarrow>
            log (run env sched s) ws =
            log s ws @ QueryCall prompt (resume_option (sessionIds s ws)) #
              map (\<lambda>c. Send (Text c)) (stream_text ms) @
              [Send (Error ''Failed to process query'')])"
    using turn_view [OF assms] by (cases e) (simp_all add: view_def comp_def)
  then show ?thesis using resume_sends [of _ ws] by blast
qed

text \<open>
  The response that yields \<^verbatim>\<open>h\<close> and then \<^verbatim>\<open>i\<close>: the socket receives \<^verbatim>\<open>text h\<close>,
  \<^verbatim>\<open>text i\<close>, \<^verbatim>\<open>done\<close>, in this order.
\<close>

theorem relay_keeps_order_witness:
  "tokenVerified signed_in 0 = Some True \<and>
   \<not> truthy (get_prop (prompt_message ''say hi'') ''token'') \<and>
   get_prop (prompt_message ''say hi'') ''prompt'' = Some (JStr ''say hi'') \<and>
   query (answers [AssistantMessage (Some [TextBlock ''h'']),
                   AssistantMessage (Some [TextBlock ''i''])] Completes) =
     ([AssistantMessage (Some [TextBlock ''h'']), AssistantMessage (Some [TextBlock ''i''])],
      Completes) \<and>
   log (run env_ok
     [Message 0 (Parsed (prompt_message ''say hi''))
        (answers [AssistantMessage (Some [TextBlock ''h'']),
                  AssistantMessage (Some [TextBlock ''i''])] Completes),
      Resume 0 0, Open 1, Resume 0 0, Resume 0 0, Resume 0 0, Resume 0 0] signed_in) 0 =
   log signed_in 0 @
     [QueryCall ''say hi'' None, Send (Text CHR ''h''), Send (Text CHR ''i''), Send Done]"
proof -
  let ?up = "answers [AssistantMessage (Some [TextBlock ''h'']),
                      AssistantMessage (Some [TextBlock ''i''])] Completes"
  have a: "tokenVerified signed_in 0 = Some True" by (simp add: signed_in_view)
  have b: "\<not> truthy (get_prop (prompt_message ''say hi'') ''token'')"
    by (simp add: prompt_message_def)
  have c: "get_prop (prompt_message ''say hi'') ''prompt'' = Some (JStr ''say hi'')"
    by (simp add: prompt_message_def)
  have d: "''say hi'' \<noteq> []" "length ''say hi'' \<le> 100000" by simp_all
  have q: "query ?up =
     ([AssistantMessage (Some [TextBlock ''h'']), AssistantMessage (Some [TextBlock ''i''])],
      Completes)"
    by (simp add: answers_def)
  have e: "events_of 0
     [Message 0 (Parsed (prompt_message ''say hi'')) ?up,
      Resume 0 0, Open 1, Resume 0 0, Resume 0 0, Resume 0 0, Resume 0 0] =
     Message 0 (Parsed (prompt_message ''say hi'')) ?up #
     replicate (length [AssistantMessage (Some [TextBlock ''h'']),
                        AssistantMessage (Some [TextBlock ''i''])] +
                length (stream_text [AssistantMessage (Some [TextBlock ''h'']),
                        AssistantMessage (Some [TextBlock ''i''])]) + 1)
       (Resume 0 (length (pending signed_in 0)))"
    by (simp add: events_of_def signed_in_view numeral_eq_Suc)
  show ?thesis
    using relay_keeps_order [OF a b c d env_ok_key q e] a b c q
    by (simp add: signed_in_view resume_option_def)
qed

subsection \<open>Prompts that fail validation\<close>

text \<open>
  An empty prompt and a prompt that is a number, sent on a verified idle socket: the
  handler returns without sending anything, so no error message reaches the client.
\<close>

theorem silent_rejection_counterexample:
  "tokenVerified signed_in 0 = Some True \<and> pending signed_in 0 = [] \<and>
   step env_ok (Message 0 (Parsed (prompt_message '''')) (answers [] Completes)) signed_in =
     signed_in \<and>
   step env_ok (Message 0 (Parsed (JObj [(''prompt'', JNum 5)])) (answers [] Completes)) signed_in =
     signed_in"
  by (simp add: onMessage_def onPrompt_def signed_in_view prompt_message_def)

text \<open>
  C6, as the code has it. On a verified socket, take a message other than \<^verbatim>\<open>null\<close>
  and without a truthy \<^verbatim>\<open>token\<close>. If its prompt is a string of more than 100000
  units, it is answered with the error \<^verbatim>\<open>Prompt too long. Maximum 100000 characters\<close>
  and changes nothing else: neither Map, no suspended invocation, no call of
  \<^verbatim>\<open>query\<close>. If its prompt is the empty string, is absent or is not a string, it is
  dropped: the server state stays as it was and nothing is sent.
\<close>

theorem invalid_prompt_rejected:
  assumes "tokenVerified s ws = Some True" and "\<not> truthy (get_prop data ''token'')"
    and "data \<noteq> JNull"
  shows "(\<forall>p. get_prop data ''prompt'' = Some (JStr p) \<and> length p > 100000 \<longrightarrow>
            step env (Message ws (Parsed data) up) s =
            send ws (Error ''Prompt too long. Maximum 100000 characters'') s) \<and>
         (get_prop data ''prompt'' = Some (JStr []) \<or>
          (\<forall>p. get_prop data ''prompt'' \<noteq> Some (JStr p)) \<longrightarrow>
            step env (Message ws (Parsed data) up) s = s)"
proof -
  have m: "onMessage env ws (Parsed data) up s = onPrompt env ws data up s"
    using assms(2,3) by (cases "get_prop data ''token''") (simp_all add: onMessage_def)
  have long: "onPrompt env ws data up s =
      (send ws (Error ''Prompt too long. Maximum 100000 characters'') s, None)"
    if "get_prop data ''prompt'' = Some (JStr p)" and "length p > 100000" for p
    using that assms(1) by (auto simp add: onPrompt_def)
  have empty: "onPrompt env ws data up s = (s, None)"
    if "get_prop data ''prompt'' = Some (JStr [])"
    using that assms(1) by (simp add: onPrompt_def)
  have other: "onPrompt env ws data up s = (s, None)"
    if "\<forall>p. get_prop data ''prompt'' \<noteq> Some (JStr p)"
  proof (cases "get_prop data ''prompt''")
    case None
    then show ?thesis using assms(1) by (simp add: onPrompt_def)
  next
    case (Some j)
    then show ?thesis using that assms(1) by (cases j) (simp_all add: onPrompt_def)
  qed
  show ?thesis using m long empty other by auto
qed

text \<open>
  A prompt of 100001 characters, and a prompt that is \<^verbatim>\<open>true\<close>.
\<close>

theorem invalid_prompt_rejected_witness:
  "tokenVerified signed_in 0 = Some True \<and>
   \<not> truthy (get_prop (prompt_message (replicate 100001 CHR ''a'')) ''token'') \<and>
   length (replicate 100001 CHR ''a'') > 100000 \<and>
   step env_ok (Message 0 (Parsed (prompt_message (replicate 100001 CHR ''a'')))
      (answers [] Completes)) signed_in =
   send 0 (Error ''Prompt too long. Maximum 100000 characters'') signed_in \<and>
   step env_ok (Message 0 (Parsed (JObj [(''prompt'', JBool True)])) (answers [] Completes))
      signed_in = signed_in"
  using invalid_prompt_rejected
      [of signed_in 0 "prompt_message (replicate 100001 CHR ''a'')" env_ok "answers [] Completes"]
    invalid_prompt_rejected
      [of signed_in 0 "JObj [(''prompt'', JBool True)]" env_ok "answers [] Completes"]
  by (simp add: signed_in_view prompt_message_def)

subsection \<open>Failed verification\<close>

text \<open>
  When \<^verbatim>\<open>verifyToken\<close> rejects, the client receives an \<^verbatim>\<open>error\<close> message with the text
  \<^verbatim>\<open>Token verification failed\<close>; no \<^verbatim>\<open>tokenVerified\<close> message with
  \<^verbatim>\<open>success: false\<close> is sent.
\<close>

theorem failed_verification_counterexample:
  "log (run env_ok [Open 0, Message 0 (Parsed credential) rejects, Resume 0 0] initial) 0 =
     [Send Ready, VerifyCall (JStr ''jwt''), Send (Error ''Token verification failed'')]"
  by (simp add: initial_def onOpen_def checkWSAuth_def send_def emit_def
      onMessage_def credential_def rejects_def)

text \<open>
  C7, as the code has it. A credential message whose verification fails leaves the
  socket's entries of \<^verbatim>\<open>tokenVerified\<close> and \<^verbatim>\<open>sessionIds\<close> and its suspended
  invocations as they were, and what is sent is the \<^verbatim>\<open>error\<close> message
  \<^verbatim>\<open>Token verification failed\<close>. A further credential message whose verification
  succeeds then makes the socket verified and is answered with \<^verbatim>\<open>tokenVerified\<close>,
  \<^verbatim>\<open>success: true\<close>. Other sockets may do what they like meanwhile.
\<close>

theorem failed_verification_allows_retry:
  assumes "get_prop data ''token'' = Some tok" and "truthy (Some tok)"
    and "verifyToken up = None"
    and "events_of ws sched = [Message ws (Parsed data) up, Resume ws (length (pending s ws))]"
    and "get_prop data' ''token'' = Some tok'" and "truthy (Some tok')"
    and "verifyToken up' = Some r"
    and "events_of ws sched' = [Message ws (Parsed data') up', Resume ws (length (pending s ws))]"
  shows "tokenVerified (run env sched s) ws = tokenVerified s ws \<and>
         sessionIds (run env sched s) ws = sessionIds s ws \<and>
         pending (run env sched s) ws = pending s ws \<and>
         log (run env sched s) ws =
           log s ws @ [VerifyCall tok, Send (Error ''Token verification failed'')] \<and>
         tokenVerified (run env sched' (run env sched s)) ws = Some True \<and>
         log (run env sched' (run env sched s)) ws =
           log (run env sched s) ws @ [VerifyCall tok', Send (TokenVerified True r)]"
proof -
  let ?s1 = "run env sched s"
  have v1: "view ws ?s1 = (sessionIds s ws, tokenVerified s ws, pending s ws,
      log s ws @ [VerifyCall tok, Send (Error ''Token verification failed'')])"
    using credential_view [OF assms(1,2,4), of env] assms(3) by simp
  then have p: "pending ?s1 ws = pending s ws" by (simp add: view_def)
  have "view ws (run env sched' ?s1) = (sessionIds ?s1 ws, Some True, pending ?s1 ws,
      log ?s1 ws @ [VerifyCall tok', Send (TokenVerified True r)])"
    using credential_view [OF assms(5,6), of ws sched' up' ?s1 env] assms(7,8) p by simp
  then show ?thesis using v1 by (simp add: view_def)
qed

text \<open>
  A freshly opened socket whose first credential is rejected and whose second is accepted.
\<close>

theorem failed_verification_allows_retry_witness:
  "get_prop credential ''token'' = Some (JStr ''jwt'') \<and> truthy (Some (JStr ''jwt'')) \<and>
   verifyToken rejects = None \<and>
   verifyToken accepts = Some (JObj [(''sub'', JStr ''user'')]) \<and>
   events_of 0 [Message 0 (Parsed credential) rejects, Open 1, Resume 0 0] =
     [Message 0 (Parsed credential) rejects, Resume 0 (length (pending (onOpen 0 initial) 0))] \<and>
   events_of 0 [Message 0 (Parsed credential) accepts, Resume 0 0] =
     [Message 0 (Parsed credential) accepts, Resume 0 (length (pending (onOpen 0 initial) 0))] \<and>
   tokenVerified (run env_ok [Message 0 (Parsed credential) rejects, Open 1, Resume 0 0]
       (onOpen 0 initial)) 0 = Some False \<and>
   log (run env_ok [Message 0 (Parsed credential) rejects, Open 1, Resume 0 0]
       (onOpen 0 initial)) 0 =
     [Send Ready, VerifyCall (JStr ''jwt''), Send (Error ''Token verification failed'')] \<and>
   tokenVerified (run env_ok [Message 0 (Parsed credential) accepts, Resume 0 0]
       (run env_ok [Message 0 (Parsed credential) rejects, Open 1, Resume 0 0]
          (onOpen 0 initial))) 0 = Some True"
proof -
  have a: "get_prop credential ''token'' = Some (JStr ''jwt'')" by (simp add: credential_def)
  have b: "truthy (Some (JStr ''jwt''))" by simp
  have c: "verifyToken rejects = None" by (simp add: rejects_def)
  have d: "verifyToken accepts = Some (JObj [(''sub'', JStr ''user'')])" by (simp add: accepts_def)
  have p: "pending (onOpen 0 initial) 0 = []"
    by (simp add: onOpen_def initial_def checkWSAuth_def send_def emit_def)
  have e: "events_of 0 [Message 0 (Parsed credential) rejects, Open 1, Resume 0 0] =
     [Message 0 (Parsed credential) rejects, Resume 0 (length (pending (onOpen 0 initial) 0))]"
    by (simp add: events_of_def p)
  have f: "events_of 0 [Message 0 (Parsed credential) accepts, Resume 0 0] =
     [Message 0 (Parsed credential) accepts, Resume 0 (length (pending (onOpen 0 initial) 0))]"
    by (simp add: events_of_def p)
  have i: "tokenVerified (onOpen 0 initial) 0 = Some False"
       "log (onOpen 0 initial) 0 = [Send Ready]"
    by (simp_all add: onOpen_def initial_def checkWSAuth_def send_def emit_def)
  show ?thesis
    using failed_verification_allows_retry [OF a b c e a b d f, of env_ok] a b c d e f i
    by simp
qed

subsection \<open>Messages with a token field\<close>

text \<open>
  The handler tests \<^verbatim>\<open>!!data.token\<close>. A message whose \<^verbatim>\<open>token\<close> field is the empty
  string has the field but fails the test: on a verified socket its prompt goes to
  \<^verbatim>\<open>query\<close> and \<^verbatim>\<open>verifyToken\<close> is not called.
\<close>

theorem falsy_token_counterexample:
  "get_prop (JObj [(''token'', JStr ''''), (''prompt'', JStr ''hi'')]) ''token'' = Some (JStr '''') \<and>
   log (step env_ok (Message 0 (Parsed (JObj [(''token'', JStr ''''), (''prompt'', JStr ''hi'')]))
          (answers [] Completes)) signed_in) 0 =
   log signed_in 0 @ [QueryCall ''hi'' None]"
  by (simp add: onMessage_def onPrompt_def signed_in_view env_ok_def env_set_def emit_def
      resume_option_def answers_def)

text \<open>
  C8, as the code has it. A message whose \<^verbatim>\<open>token\<close> field is truthy (a non-empty
  string, a number other than zero, \<^verbatim>\<open>true\<close>, an array or an object) is a credential
  message whatever else it contains: \<^verbatim>\<open>verifyToken\<close> is called with the token, nothing
  else is done before the verification answers, and the suspended invocation, whenever
  it is resumed, ends without a call of \<^verbatim>\<open>query\<close>. A message whose \<^verbatim>\<open>token\<close> field is
  present but falsy (the empty string, zero, \<^verbatim>\<open>false\<close>, \<^verbatim>\<open>null\<close>) is handled as if it
  had no token: it goes through the part of the handler that follows the credential
  branch, with the same result as a message that has the same prompt and no \<^verbatim>\<open>token\<close>
  field.
\<close>

theorem truthy_token_is_credential:
  "(truthy (get_prop data ''token'') \<longrightarrow>
      (\<exists>tok. get_prop data ''token'' = Some tok \<and>
            step env (Message ws (Parsed data) up) s =
            s\<lparr>pending := (pending s)(ws := pending s ws @ [AwaitVerify (verifyToken up)]),
              log := (log s)(ws := log s ws @ [VerifyCall tok])\<rparr>) \<and>
      (\<forall>s'. snd (resume ws (AwaitVerify (verifyToken up)) s') = None \<and>
            query_calls (log (fst (resume ws (AwaitVerify (verifyToken up)) s')) ws) =
            query_calls (log s' ws))) \<and>
   (\<forall>tok. get_prop data ''token'' = Some tok \<and> \<not> truthy (Some tok) \<longrightarrow>
      step env (Message ws (Parsed data) up) s = spawn ws (onPrompt env ws data up s) \<and>
      (\<forall>data'. data' \<noteq> JNull \<and> get_prop data' ''token'' = None \<and>
          get_prop data' ''prompt'' = get_prop data ''prompt'' \<longrightarrow>
          step env (Message ws (Parsed data') up) s =
          step env (Message ws (Parsed data) up) s))"
proof -
  have q: "query_calls (l @ [Send m]) = query_calls l" for l m
    by (induction l rule: query_calls.induct) simp_all
  have r: "snd (resume ws (AwaitVerify r) s') = None \<and>
               query_calls (log (fst (resume ws (AwaitVerify r) s')) ws) =
               query_calls (log s' ws)" for s' r
    by (cases r) (simp_all add: send_def emit_def q)
  have a: "\<exists>tok. get_prop data ''token'' = Some tok \<and>
            step env (Message ws (Parsed data) up) s =
            s\<lparr>pending := (pending s)(ws := pending s ws @ [AwaitVerify (verifyToken up)]),
              log := (log s)(ws := log s ws @ [VerifyCall tok])\<rparr>"
    if t: "truthy (get_prop data ''token'')"
  proof -
    obtain tok where k: "get_prop data ''token'' = Some tok"
      using t by (cases "get_prop data ''token''") simp_all
    show ?thesis using credential_step [OF k, of env ws up s] k t by simp
  qed
  have b: "step env (Message ws (Parsed data) up) s = spawn ws (onPrompt env ws data up s)"
    if "get_prop data ''token'' = Some tok" and "\<not> truthy (Some tok)" for tok
    using that by (rule falsy_token_step)
  have c: "step env (Message ws (Parsed data') up) s = step env (Message ws (Parsed data) up) s"
    if "get_prop data ''token'' = Some tok" and "\<not> truthy (Some tok)"
      and "data' \<noteq> JNull" and "get_prop data' ''token'' = None"
      and "get_prop data' ''prompt'' = get_prop data ''prompt''" for tok data'
    using b [OF that(1,2)] no_token_step [OF that(4,3), of env ws up s]
      onPrompt_reads_prompt [OF that(5), of env ws up s]
    by simp
  have f: "\<forall>tok. get_prop data ''token'' = Some tok \<and> \<not> truthy (Some tok) \<longrightarrow>
      step env (Message ws (Parsed data) up) s = spawn ws (onPrompt env ws data up s) \<and>
      (\<forall>data'. data' \<noteq> JNull \<and> get_prop data' ''token'' = None \<and>
          get_prop data' ''prompt'' = get_prop data ''prompt'' \<longrightarrow>
          step env (Message ws (Parsed data') up) s =
          step env (Message ws (Parsed data) up) s)"
  proof (intro allI impI conjI)
    fix tok
    assume h: "get_prop data ''token'' = Some tok \<and> \<not> truthy (Some tok)"
    show "step env (Message ws (Parsed data) up) s = spawn ws (onPrompt env ws data up s)"
      using h b by blast
    fix data'
    assume "data' \<noteq> JNull \<and> get_prop data' ''token'' = None \<and>
          get_prop data' ''prompt'' = get_prop data ''prompt''"
    then show "step env (Message ws (Parsed data') up) s =
          step env (Message ws (Parsed data) up) s"
      using h c [of tok data'] by blast
  qed
  have t: "truthy (get_prop data ''token'') \<longrightarrow>
      (\<exists>tok. get_prop data ''token'' = Some tok \<and>
            step env (Message ws (Parsed data) up) s =
            s\<lparr>pending := (pending s)(ws := pending s ws @ [AwaitVerify (verifyToken up)]),
              log := (log s)(ws := log s ws @ [VerifyCall tok])\<rparr>) \<and>
      (\<forall>s'. snd (resume ws (AwaitVerify (verifyToken up)) s') = None \<and>
            query_calls (log (fst (resume ws (AwaitVerify (verifyToken up)) s')) ws) =
            query_calls (log s' ws))"
    using a r by (intro impI conjI allI) simp_all
  show ?thesis by (intro conjI) (rule t, rule f)
qed

text \<open>
  A message with both a token and a prompt, sent on a verified socket; and a message
  whose token is the number zero, which does what the bare prompt does.
\<close>

theorem truthy_token_is_credential_witness:
  "truthy (get_prop (JObj [(''token'', JStr ''jwt''), (''prompt'', JStr ''hi'')]) ''token'') \<and>
   log (step env_ok (Message 0 (Parsed (JObj [(''token'', JStr ''jwt''), (''prompt'', JStr ''hi'')]))
          accepts) signed_in) 0 =
   log signed_in 0 @ [VerifyCall (JStr ''jwt'')] \<and>
   query_calls (log (fst (resume 0 (AwaitVerify (verifyToken accepts)) signed_in)) 0) =
   query_calls (log signed_in 0) \<and>
   get_prop (JObj [(''token'', JNum 0), (''prompt'', JStr ''hi'')]) ''token'' = Some (JNum 0) \<and>
   \<not> truthy (Some (JNum 0)) \<and>
   step env_ok (Message 0 (Parsed (JObj [(''token'', JNum 0), (''prompt'', JStr ''hi'')]))
          (answers [] Completes)) signed_in =
   step env_ok (Message 0 (Parsed (prompt_message ''hi'')) (answers [] Completes)) signed_in"
proof -
  have a: "truthy (get_prop (JObj [(''token'', JStr ''jwt''), (''prompt'', JStr ''hi'')]) ''token'')"
    by simp
  have b: "get_prop (JObj [(''token'', JNum 0), (''prompt'', JStr ''hi'')]) ''token'' = Some (JNum 0)"
    "\<not> truthy (Some (JNum 0))" by simp_all
  have c: "prompt_message ''hi'' \<noteq> JNull" "get_prop (prompt_message ''hi'') ''token'' = None"
    "get_prop (prompt_message ''hi'') ''prompt'' =
     get_prop (JObj [(''token'', JNum 0), (''prompt'', JStr ''hi'')]) ''prompt''"
    by (simp_all add: prompt_message_def)
  note t = truthy_token_is_credential
    [of "JObj [(''token'', JStr ''jwt''), (''prompt'', JStr ''hi'')]" env_ok 0 accepts signed_in,
     THEN conjunct1, rule_format, OF a]
  note u = truthy_token_is_credential
    [of "JObj [(''token'', JNum 0), (''prompt'', JStr ''hi'')]" env_ok 0 "answers [] Completes"
        signed_in, THEN conjunct2, rule_format, of "JNum 0"]
  have x: "log (step env_ok (Message 0 (Parsed (JObj [(''token'', JStr ''jwt''), (''prompt'', JStr ''hi'')]))
          accepts) signed_in) 0 = log signed_in 0 @ [VerifyCall (JStr ''jwt'')]"
    using t [THEN conjunct1] by auto
  have y: "query_calls (log (fst (resume 0 (AwaitVerify (verifyToken accepts)) signed_in)) 0) =
         query_calls (log signed_in 0)"
    using t [THEN conjunct2] by simp
  have z: "step env_ok (Message 0 (Parsed (JObj [(''token'', JNum 0), (''prompt'', JStr ''hi'')]))
          (answers [] Completes)) signed_in =
   step env_ok (Message 0 (Parsed (prompt_message ''hi'')) (answers [] Completes)) signed_in"
    using u b c by (simp del: step.simps)
  show ?thesis
    by (intro conjI) (rule a, rule x, rule y, rule b(1), rule b(2), rule z)
qed

subsection \<open>Repeated credentials\<close>

text \<open>
  C9. Once a socket's entry of \<^verbatim>\<open>tokenVerified\<close> is \<^verbatim>\<open>true\<close> it stays so under every
  schedule of events in which that socket is neither opened nor closed. Processing a
  credential message, in its first part and when its verification answers with either
  outcome, leaves \<^verbatim>\<open>sessionIds\<close> as it is and the flag \<^verbatim>\<open>true\<close>.
\<close>

theorem verified_flag_never_reverts:
  assumes "tokenVerified s ws = Some True"
  shows "(\<forall>sched. (\<forall>e \<in> set sched. e \<noteq> Open ws \<and> e \<noteq> Close ws) \<longrightarrow>
            tokenVerified (run env sched s) ws = Some True) \<and>
         (\<forall>data up. truthy (get_prop data ''token'') \<longrightarrow>
            sessionIds (step env (Message ws (Parsed data) up) s) = sessionIds s \<and>
            tokenVerified (step env (Message ws (Parsed data) up) s) = tokenVerified s) \<and>
         (\<forall>i r. i < length (pending s ws) \<and> pending s ws ! i = AwaitVerify r \<longrightarrow>
            sessionIds (step env (Resume ws i) s) = sessionIds s \<and>
            tokenVerified (step env (Resume ws i) s) ws = Some True)"
proof -
  have a: "tokenVerified (run env sched s) ws = Some True"
    if "\<forall>e \<in> set sched. e \<noteq> Open ws \<and> e \<noteq> Close ws" for sched
    using assms that by (rule run_keeps_verified)
  have b: "sessionIds (step env (Message ws (Parsed data) up) s) = sessionIds s \<and>
           tokenVerified (step env (Message ws (Parsed data) up) s) = tokenVerified s" for data up
    using onMessage_maps [of env ws "Parsed data" up s] by (simp add: spawn_maps)
  have c: "sessionIds (step env (Resume ws i) s) = sessionIds s \<and>
           tokenVerified (step env (Resume ws i) s) ws = Some True"
    if "i < length (pending s ws)" and "pending s ws ! i = AwaitVerify r" for i r
    using that assms by (simp add: settle_maps resume_verify_shape)
  show ?thesis using a b c by blast
qed

text \<open>
  A signed-in socket sends its credential again and the identity provider rejects it.
\<close>

theorem verified_flag_never_reverts_witness:
  "tokenVerified signed_in 0 = Some True \<and>
   tokenVerified (run env_ok [Message 0 (Parsed credential) rejects, Resume 0 0] signed_in) 0 =
     Some True \<and>
   truthy (get_prop credential ''token'') \<and>
   sessionIds (step env_ok (Message 0 (Parsed credential) rejects) signed_in) =
     sessionIds signed_in \<and>
   tokenVerified (step env_ok (Message 0 (Parsed credential) rejects) signed_in) 0 = Some True \<and>
   0 < length (pending (step env_ok (Message 0 (Parsed credential) rejects) signed_in) 0) \<and>
   pending (step env_ok (Message 0 (Parsed credential) rejects) signed_in) 0 ! 0 =
     AwaitVerify None \<and>
   sessionIds (step env_ok (Resume 0 0)
      (step env_ok (Message 0 (Parsed credential) rejects) signed_in)) =
     sessionIds (step env_ok (Message 0 (Parsed credential) rejects) signed_in)"
proof -
  let ?s = "step env_ok (Message 0 (Parsed credential) rejects) signed_in"
  have a: "tokenVerified signed_in 0 = Some True" by (simp add: signed_in_view)
  have b: "\<forall>e \<in> set [Message 0 (Parsed credential) rejects, Resume 0 0]. e \<noteq> Open 0 \<and> e \<noteq> Close 0"
    by simp
  have c: "truthy (get_prop credential ''token'')" by (simp add: credential_def)
  have s: "?s = signed_in\<lparr>pending := (pending signed_in)(0 := [AwaitVerify None]),
       log := (log signed_in)(0 := log signed_in 0 @ [VerifyCall (JStr ''jwt'')])\<rparr>"
    using credential_step [of credential "JStr ''jwt''" env_ok 0 rejects signed_in]
    by (simp add: credential_def rejects_def signed_in_view)
  have d: "tokenVerified ?s 0 = Some True" "0 < length (pending ?s 0)"
    "pending ?s 0 ! 0 = AwaitVerify None"
    unfolding s by (simp_all add: signed_in_view)
  from verified_flag_never_reverts [OF a, of env_ok]
  have "tokenVerified (run env_ok [Message 0 (Parsed credential) rejects, Resume 0 0] signed_in) 0 =
     Some True" and "sessionIds ?s = sessionIds signed_in"
    using b c by blast+
  moreover from verified_flag_never_reverts [OF d(1), of env_ok]
  have "sessionIds (step env_ok (Resume 0 0) ?s) = sessionIds ?s"
    using d(2,3) by blast
  ultimately show ?thesis using a c d by blast
qed

subsection \<open>Unparseable messages\<close>

text \<open>
  C10. A message whose payload \<^verbatim>\<open>JSON.parse\<close> rejects is dropped: the handler returns
  from its \<^verbatim>\<open>catch\<close>, so the whole server state is as before: nothing is sent on any
  socket, neither Map changes, no invocation is left suspended, and neither
  \<^verbatim>\<open>verifyToken\<close> nor \<^verbatim>\<open>query\<close> is called.
\<close>

theorem malformed_message_ignored:
  "step env (Message ws Malformed up) s = s"
  by (simp add: onMessage_def)

end
